theory Spec2Isabelle
  imports Main "HOL-Library.AList" "HOL-Library.Multiset"
begin

section \<open>Go integers\<close>

text \<open>
  Go's \<open>int\<close> (on a 64-bit platform) and \<open>time.Duration\<close> (an \<open>int64\<close> count of
  nanoseconds) are modelled as \<open>int\<close> with the two's-complement wrap-around written out.
  Integer division truncates towards zero and panics on a zero divisor.
\<close>

definition wrap64 :: "int \<Rightarrow> int" where
  "wrap64 x = (x + 2 ^ 63) mod 2 ^ 64 - 2 ^ 63"

definition is_int64 :: "int \<Rightarrow> bool" where
  "is_int64 x = (- (2 ^ 63) \<le> x \<and> x < 2 ^ 63)"

definition trunc_div :: "int \<Rightarrow> int \<Rightarrow> int" where
  "trunc_div a b = sgn a * sgn b * (\<bar>a\<bar> div \<bar>b\<bar>)"

datatype panic = DivideByZero | NilMapAssign | MakechanSize

datatype 'a outcome = Panic panic | Return 'a

definition go_div :: "int \<Rightarrow> int \<Rightarrow> int outcome" where
  "go_div a b = (if b = 0 then Panic DivideByZero else Return (wrap64 (trunc_div a b)))"

section \<open>Errors, floats and formatted output\<close>

text \<open>A Go \<open>error\<close> value is its message; a nilable error is an \<open>option\<close>.\<close>

datatype go_error = GoError string

fun Error :: "go_error \<Rightarrow> string" where
  "Error (GoError msg) = msg"

text \<open>
  \<open>float64\<close> values are kept as the expression that computes them: the conversion of an
  integer, \<open>Duration.Seconds()\<close>, and the quotient of two floats. Rounding is not modelled.
\<close>

datatype float64 = F64 int | Seconds int | FDiv float64 float64

text \<open>
  One call of \<open>fmt.Fprintf\<close> formats its arguments and makes one \<open>Write\<close> on the writer.
  A message is the format string with its arguments; a writer is a state with a write
  function that may fail.
\<close>

datatype arg = AFloat float64 | ADuration int | AInt int | AString string

type_synonym message = "string \<times> arg list"

type_synonym 'w writer = "message \<Rightarrow> 'w \<Rightarrow> 'w \<times> go_error option"

text \<open>The source discards both results of \<open>fmt.Fprintf\<close>.\<close>

definition Fprintf :: "'w writer \<Rightarrow> 'w \<Rightarrow> string \<Rightarrow> arg list \<Rightarrow> 'w" where
  "Fprintf wr w fmt args = fst (wr (fmt, args) w)"

section \<open>clientStats\<close>

text \<open>
  The \<open>Errors\<close> map is an association list, \<open>None\<close> when the Go map is \<open>nil\<close>. The mutex
  serialises the calls of \<open>Count\<close>; the model is the sequence of calls in the order in which
  they take the lock.
\<close>

record clientStats =
  NumTotal :: int
  NumErrors :: int
  TimeErrors :: int
  TimeTotal :: int
  Errors :: "(string \<times> int) list option"

definition zero_stats :: clientStats where
  "zero_stats = \<lparr>NumTotal = 0, NumErrors = 0, TimeErrors = 0, TimeTotal = 0, Errors = None\<rparr>"

text \<open>Reading a Go map (also a nil one) at a missing key gives the zero value.\<close>

definition map_get :: "(string \<times> int) list option \<Rightarrow> string \<Rightarrow> int" where
  "map_get m k = (case m of None \<Rightarrow> 0
                  | Some al \<Rightarrow> (case map_of al k of None \<Rightarrow> 0 | Some v \<Rightarrow> v))"

text \<open>Assigning to an entry of a nil map panics.\<close>

definition map_set :: "(string \<times> int) list option \<Rightarrow> string \<Rightarrow> int
    \<Rightarrow> (string \<times> int) list option outcome" where
  "map_set m k v = (case m of None \<Rightarrow> Panic NilMapAssign
                    | Some al \<Rightarrow> Return (Some (AList.update k v al)))"

definition Count :: "go_error option \<Rightarrow> int \<Rightarrow> clientStats \<Rightarrow> clientStats outcome" where
  "Count err elapsed stats =
     (let stats = stats\<lparr>NumTotal := wrap64 (NumTotal stats + 1)\<rparr> in
      case err of
        None \<Rightarrow> Return (stats\<lparr>TimeTotal := wrap64 (TimeTotal stats + elapsed)\<rparr>)
      | Some e \<Rightarrow>
          (let stats = stats\<lparr>NumErrors := wrap64 (NumErrors stats + 1)\<rparr>;
               stats = stats\<lparr>TimeErrors := wrap64 (TimeErrors stats + elapsed)\<rparr>;
               stats = (if Errors stats = None then stats\<lparr>Errors := Some []\<rparr> else stats)
           in case map_set (Errors stats) (Error e)
                     (wrap64 (map_get (Errors stats) (Error e) + 1)) of
                Panic p \<Rightarrow> Panic p
              | Return m \<Rightarrow>
                  Return (stats\<lparr>Errors := m, TimeTotal := wrap64 (TimeTotal stats + elapsed)\<rparr>)))"

text \<open>A sequence of calls, stopping at the first panic.\<close>

fun Count_all :: "(go_error option \<times> int) list \<Rightarrow> clientStats \<Rightarrow> clientStats outcome" where
  "Count_all [] stats = Return stats"
| "Count_all ((err, elapsed) # calls) stats =
     (case Count err elapsed stats of
        Panic p \<Rightarrow> Panic p
      | Return stats' \<Rightarrow> Count_all calls stats')"

definition map_entries :: "(string \<times> int) list option \<Rightarrow> (string \<times> int) list" where
  "map_entries m = (case m of None \<Rightarrow> [] | Some al \<Rightarrow> al)"

text \<open>
  \<open>Render\<close>. There is no \<open>return\<close> after the ``No requests'' message, so the arithmetic
  below it runs for every state. Go ranges over a map in an unspecified order; the model
  takes the order of the association list.
\<close>

definition error_line :: "string \<times> int \<Rightarrow> message" where
  "error_line e = (''   * [%d] %q\<newline>'', [AInt (snd e), AString (fst e)])"

definition Render :: "'w writer \<Rightarrow> 'w \<Rightarrow> clientStats \<Rightarrow> 'w \<times> go_error option outcome" where
  "Render wr w stats =
     (let w = (if NumTotal stats = 0 then Fprintf wr w ''   No requests.'' [] else w);
          errRate = FDiv (F64 (wrap64 (NumErrors stats * 100))) (F64 (NumTotal stats));
          rps = FDiv (F64 (NumTotal stats)) (Seconds (TimeTotal stats))
      in case go_div (TimeTotal stats) (NumTotal stats) of
           Panic p \<Rightarrow> (w, Panic p)
         | Return reqAvg \<Rightarrow>
             (let w = Fprintf wr w ''   Requests/Sec: %0.2f'' [AFloat rps] in
              case (if NumErrors stats > 0 \<and> NumErrors stats \<noteq> NumTotal stats
                    then (case go_div (TimeErrors stats) (NumErrors stats) of
                            Panic p \<Rightarrow> Panic p
                          | Return errAvg \<Rightarrow>
                              Return (Fprintf wr w '', %s per error'' [ADuration errAvg]))
                    else Return w) of
                Panic p \<Rightarrow> (w, Panic p)
              | Return w \<Rightarrow>
                  (let w = Fprintf wr w ''\<newline>'' [];
                       w = Fprintf wr w ''   Average:      %s\<newline>'' [ADuration reqAvg];
                       w = Fprintf wr w ''   Errors:       %0.2f%%\<newline>'' [AFloat errRate];
                       w = foldl (\<lambda>w e. Fprintf wr w (fst (error_line e)) (snd (error_line e)))
                             w (map_entries (Errors stats))
                   in (w, Return None))))"

text \<open>A writer that keeps every message, and one that fails on every write.\<close>

definition buffer_writer :: "message list writer" where
  "buffer_writer m w = (w @ [m], None)"

definition failing_writer :: "unit writer" where
  "failing_writer m w = ((), Some (GoError ''write failed''))"

text \<open>
  The report as the specification words it, for a state with requests: the request rate,
  the mean error latency when some but not all requests failed, the average latency, the
  error rate, and one line for each entry of the error map. The arithmetic is Go's.
\<close>

definition spec_report :: "clientStats \<Rightarrow> message list" where
  "spec_report stats =
     [(''   Requests/Sec: %0.2f'',
         [AFloat (FDiv (F64 (NumTotal stats)) (Seconds (TimeTotal stats)))])]
     @ (if NumErrors stats > 0 \<and> NumErrors stats \<noteq> NumTotal stats
        then [('', %s per error'',
                 [ADuration (wrap64 (trunc_div (TimeErrors stats) (NumErrors stats)))])]
        else [])
     @ [(''\<newline>'', []),
        (''   Average:      %s\<newline>'',
           [ADuration (wrap64 (trunc_div (TimeTotal stats) (NumTotal stats)))]),
        (''   Errors:       %0.2f%%\<newline>'',
           [AFloat (FDiv (F64 (wrap64 (100 * NumErrors stats))) (F64 (NumTotal stats)))])]
     @ map (\<lambda>(msg, num). (''   * [%d] %q\<newline>'', [AInt num, AString msg]))
         (map_entries (Errors stats))"

text \<open>What a writer holds after a sequence of messages, each written with its error dropped.\<close>

definition write_all :: "'w writer \<Rightarrow> 'w \<Rightarrow> message list \<Rightarrow> 'w" where
  "write_all wr w msgs = foldl (\<lambda>w m. fst (wr m w)) w msgs"

text \<open>The consistency of the counters that the specification asks for.\<close>

definition stats_consistent :: "clientStats \<Rightarrow> bool" where
  "stats_consistent s =
     (NumErrors s \<le> NumTotal s \<and> TimeErrors s \<le> TimeTotal s \<and>
      sum_list (map snd (map_entries (Errors s))) = NumErrors s)"

fun holds_after :: "('a \<Rightarrow> bool) \<Rightarrow> 'a outcome \<Rightarrow> bool" where
  "holds_after P (Return x) = P x"
| "holds_after P (Panic p) = False"

definition good_stats :: "clientStats \<Rightarrow> bool" where
  "good_stats s =
     (0 \<le> NumErrors s \<and> 0 \<le> TimeErrors s \<and> stats_consistent s \<and>
      list_all (\<lambda>v. 0 \<le> v) (map snd (map_entries (Errors s))))"

section \<open>Requests, responses and channels\<close>

text \<open>
  Modelled from the spec: the declarations of \<open>Request\<close>, \<open>Response\<close> and \<open>requestID\<close>
  are not in \<open>client.go\<close>. A Request has the owning endpoint (here its index in the
  \<open>Clients\<close> slice, \<open>None\<close> for a nil pointer), a signed integer \<open>ID\<close>, the payload and a
  timestamp; a Response has \<open>Err\<close> and \<open>Elapsed\<close>.
\<close>

record Request =
  client :: "nat option"
  ID :: int
  Line :: string
  Timestamp :: int

record Response =
  Err :: "go_error option"
  Elapsed :: int

text \<open>The composite literal \<open>Request{ID: -1}\<close>: every other field has its zero value.\<close>

definition final_request :: Request where
  "final_request = \<lparr>client = None, ID = - 1, Line = [], Timestamp = 0\<rparr>"

text \<open>
  A channel is its capacity, the values sent and not yet received, oldest first (the
  buffered values, followed by the values of the senders blocked on the full buffer), and
  the number of values received so far. A blocking send appends its value; its sender is
  blocked until the value is in the buffer or received. A receive takes the oldest value
  and blocks on an empty channel (\<open>None\<close>).
\<close>

record 'a chan =
  cap :: nat
  pending :: "'a list"
  taken :: nat

text \<open>
  \<open>make(chan T, n)\<close> panics (\<open>makechan: size out of range\<close>) on a negative size and on a
  size whose buffer is beyond what the runtime allocates. That bound depends on the
  platform and on the size of \<open>T\<close>, neither of which is in \<open>client.go\<close>: \<open>lim\<close> is the
  largest size that \<open>make\<close> accepts for the channel.
\<close>

definition make_chan :: "int \<Rightarrow> int \<Rightarrow> 'a chan outcome" where
  "make_chan lim n = (if n < 0 \<or> lim < n then Panic MakechanSize
                      else Return \<lparr>cap = nat n, pending = [], taken = 0\<rparr>)"

definition chan_send :: "'a \<Rightarrow> 'a chan \<Rightarrow> 'a chan" where
  "chan_send v ch = ch\<lparr>pending := pending ch @ [v]\<rparr>"

definition chan_recv :: "'a chan \<Rightarrow> ('a \<times> 'a chan) option" where
  "chan_recv ch = (case pending ch of [] \<Rightarrow> None
                   | v # vs \<Rightarrow> Some (v, ch\<lparr>pending := vs, taken := Suc (taken ch)\<rparr>))"



text \<open>
  The position of the next value sent, counted from the first value ever sent; the sender
  of the value at position \<open>n\<close> is blocked while the value is behind the buffer.
\<close>

definition next_position :: "'a chan \<Rightarrow> nat" where
  "next_position ch = taken ch + length (pending ch)"

definition send_blocked :: "nat \<Rightarrow> 'a chan \<Rightarrow> bool" where
  "send_blocked n ch = (taken ch + cap ch \<le> n)"

definition buffer_full :: "'a chan \<Rightarrow> bool" where
  "buffer_full ch = (cap ch \<le> length (pending ch))"

text \<open>
  A send in a \<open>select\<close> with a \<open>default\<close> case proceeds when the buffer has room, or when a
  receiver is already waiting on the channel; \<open>rcv\<close> tells whether one is, which it can
  only be on a channel with nothing pending.
\<close>

definition send_ready :: "bool \<Rightarrow> 'a chan \<Rightarrow> bool" where
  "send_ready rcv ch = (\<not> buffer_full ch \<or> (rcv \<and> pending ch = []))"

section \<open>Client\<close>

record Client =
  Endpoint :: string
  Concurrency :: int
  Timeout :: int
  In :: "Request chan"
  Stats :: clientStats

text \<open>\<open>lim\<close> is the largest size that \<open>make\<close> accepts for a channel of \<open>Request\<close>.\<close>

definition NewClient :: "int \<Rightarrow> string \<Rightarrow> int \<Rightarrow> (Client \<times> go_error option) outcome" where
  "NewClient lim endpoint concurrency =
     (case make_chan lim (wrap64 (2 * concurrency)) of
        Panic p \<Rightarrow> Panic p
      | Return ch \<Rightarrow>
          Return (\<lparr>Endpoint = endpoint, Concurrency = concurrency, Timeout = 0, In = ch,
                   Stats = zero_stats\<rparr>, None))"

section \<open>Send and Finalize\<close>

text \<open>
  The package variable \<open>id\<close> and the clients make the state of the sequencer. In \<open>Send\<close>
  the \<open>select\<close> for the client at position \<open>i\<close> runs one of its two cases: \<open>sel i\<close> says
  which (the send, maybe after waiting for room in the queue, or the cancellation), and
  \<open>now i\<close> is the value of \<open>time.Now()\<close> there. \<open>ctx_err\<close> is the value of \<open>ctx.Err()\<close>.
\<close>

record sequencer =
  id_var :: int
  clients :: "Client list"

datatype select_case = SendCase | DoneCase

fun Send_loop :: "(nat \<Rightarrow> select_case) \<Rightarrow> (nat \<Rightarrow> int) \<Rightarrow> go_error \<Rightarrow> int \<Rightarrow> string \<Rightarrow> nat
    \<Rightarrow> Client list \<Rightarrow> Client list \<times> go_error option" where
  "Send_loop sel now ctx_err idv line i [] = ([], None)"
| "Send_loop sel now ctx_err idv line i (c # cs) =
     (case sel i of
        SendCase \<Rightarrow>
          (let c' = c\<lparr>In := chan_send \<lparr>client = Some i, ID = idv, Line = line,
                                        Timestamp = now i\<rparr> (In c)\<rparr>;
               (cs', r) = Send_loop sel now ctx_err idv line (Suc i) cs
           in (c' # cs', r))
      | DoneCase \<Rightarrow> (c # cs, Some ctx_err))"

definition Send :: "(nat \<Rightarrow> select_case) \<Rightarrow> (nat \<Rightarrow> int) \<Rightarrow> go_error \<Rightarrow> string \<Rightarrow> sequencer
    \<Rightarrow> sequencer \<times> go_error option" where
  "Send sel now ctx_err line st =
     (let idv = id_var st + 1;
          (cs, r) = Send_loop sel now ctx_err idv line 0 (clients st)
      in (\<lparr>id_var = idv, clients = cs\<rparr>, r))"

text \<open>At program start \<open>id\<close> has its zero value.\<close>

definition start :: "Client list \<Rightarrow> sequencer" where
  "start cs = \<lparr>id_var = 0, clients = cs\<rparr>"

text \<open>
  A run of \<open>Send\<close> calls, with the IDs they assigned, oldest first. Between the calls
  the workers and \<open>Finalize\<close> change the clients: \<open>env\<close> is what they did before the call.
\<close>

type_synonym send_call =
  "(Client list \<Rightarrow> Client list) \<times> (nat \<Rightarrow> select_case) \<times> (nat \<Rightarrow> int) \<times> go_error \<times> string"

fun Send_all :: "send_call list \<Rightarrow> sequencer \<Rightarrow> int list \<times> sequencer" where
  "Send_all [] st = ([], st)"
| "Send_all ((env, sel, now, ctx_err, line) # calls) st =
     (let st' = fst (Send sel now ctx_err line (st\<lparr>clients := env (clients st)\<rparr>));
          (ids, st'') = Send_all calls st'
      in (id_var st' # ids, st''))"

text \<open>The number of clients, from position \<open>i\<close> on, that \<open>Send\<close> serves before a
  cancellation case runs.\<close>

fun reached_from :: "(nat \<Rightarrow> select_case) \<Rightarrow> nat \<Rightarrow> nat \<Rightarrow> nat" where
  "reached_from sel i 0 = 0"
| "reached_from sel i (Suc n) =
     (case sel i of SendCase \<Rightarrow> Suc (reached_from sel (Suc i) n) | DoneCase \<Rightarrow> 0)"

definition reached :: "(nat \<Rightarrow> select_case) \<Rightarrow> nat \<Rightarrow> nat" where
  "reached sel n = reached_from sel 0 n"

function Finalize_loop :: "int \<Rightarrow> Client \<Rightarrow> Client" where
  "Finalize_loop i c =
     (if i < Concurrency c
      then Finalize_loop (i + 1) (c\<lparr>In := chan_send final_request (In c)\<rparr>)
      else c)"
  by pat_completeness auto
termination
  by (relation "measure (\<lambda>(i, c). nat (Concurrency c - i))") auto

definition Finalize :: "Client list \<Rightarrow> Client list" where
  "Finalize cs = map (Finalize_loop 0) cs"

section \<open>Serve\<close>

text \<open>
  \<open>NewTransport\<close> and \<open>Request.Do\<close> are not in \<open>client.go\<close>; they are parameters:
  \<open>nt endpoint timeout\<close> gives a transport or an error, \<open>do t req\<close> the response.

  A worker is the goroutine started by \<open>g.Go\<close>. It has not yet built its transport
  (\<open>Starting\<close>); or it is at the outer \<open>select\<close> of its loop (\<open>Serving\<close>); or it has
  taken a request and not yet recorded its response (\<open>Handling\<close>); or it has recorded the
  response and is at the inner \<open>select\<close> (\<open>Responding\<close>); or it is in the blocking send
  \<open>out <- resp\<close> with its value at a position of the output channel (\<open>Sending\<close>); or it
  has returned; or it has panicked. The pool is what the workers share: the client (queue
  and statistics), the output channel, the log, the group's context and the group's first
  error. \<open>consumed\<close> is what the reader of the output channel has received.
\<close>

datatype 't worker =
  Starting | Serving 't | Handling 't Request | Responding 't Response | Sending 't nat
  | Exited "go_error option" | Crashed panic

record 't pool =
  pclient :: Client
  out :: "Response chan"
  consumed :: "Response list"
  logs :: "string list"
  ctx_done :: bool
  group_err :: "go_error option"
  workers :: "'t worker list"

definition msg_starting :: string where
  "msg_starting = ''starting client''"

definition msg_aborting :: string where
  "msg_aborting = ''aborting client''"

definition msg_final :: string where
  "msg_final = ''received final request, shutting down''"

definition msg_overloaded :: string where
  "msg_overloaded = ''response channel is overloaded, please open an issue''"

text \<open>The start of \<open>Serve\<close>: the concurrency is raised to 1, and one worker is started for
  each unit of it.\<close>

definition coerce :: "Client \<Rightarrow> Client" where
  "coerce c = (if Concurrency c < 1 then c\<lparr>Concurrency := 1\<rparr> else c)"

definition Serve_start :: "Client \<Rightarrow> Response chan \<Rightarrow> 't pool" where
  "Serve_start c ch =
     \<lparr>pclient = coerce c, out = ch, consumed = [], logs = [msg_starting], ctx_done = False,
      group_err = None, workers = replicate (nat (Concurrency (coerce c))) Starting\<rparr>"

text \<open>
  The inner \<open>select\<close>: a send that does not block, else the warning and the blocking
  send, which leaves the worker waiting at the position of its value.
\<close>

definition forward :: "bool \<Rightarrow> Response \<Rightarrow> Response chan \<times> string list
    \<Rightarrow> Response chan \<times> string list \<times> nat option" where
  "forward rcv resp st =
     (if send_ready rcv (fst st) then (chan_send resp (fst st), snd st, None)
      else (chan_send resp (fst st), snd st @ [msg_overloaded], Some (next_position (fst st))))"

text \<open>What \<open>errgroup\<close> does when a worker returns: the first error is kept and cancels the
  group's context.\<close>

definition go_done :: "go_error option \<Rightarrow> 't pool \<Rightarrow> 't pool" where
  "go_done r p =
     (case r of
        None \<Rightarrow> p
      | Some e \<Rightarrow> (if group_err p = None then p\<lparr>group_err := Some e, ctx_done := True\<rparr> else p))"

definition worker_at :: "'t pool \<Rightarrow> nat \<Rightarrow> 't worker option" where
  "worker_at p i = (if i < length (workers p) then Some (workers p ! i) else None)"

definition set_worker :: "nat \<Rightarrow> 't worker \<Rightarrow> 't pool \<Rightarrow> 't pool" where
  "set_worker i w p = p\<lparr>workers := (workers p)[i := w]\<rparr>"

text \<open>A worker in the blocking send is back at the outer \<open>select\<close> once its value is in
  the buffer or received.\<close>

definition at_select :: "'t pool \<Rightarrow> nat \<Rightarrow> 't option" where
  "at_select p i =
     (case worker_at p i of
        Some (Serving t) \<Rightarrow> Some t
      | Some (Sending t n) \<Rightarrow> (if send_blocked n (out p) then None else Some t)
      | _ \<Rightarrow> None)"

text \<open>
  The steps of a pool, one for each point where a worker meets the others. \<open>Init i\<close>:
  worker \<open>i\<close> builds its transport. \<open>Receive i\<close>: the outer \<open>select\<close> of worker \<open>i\<close> takes a
  request from the queue. \<open>Record i\<close>: worker \<open>i\<close> has the response of \<open>req.Do(t)\<close> and
  counts it. \<open>Forward i rcv\<close>: the inner \<open>select\<close> of worker \<open>i\<close> (\<open>rcv\<close>: a receiver is
  waiting on the output channel). \<open>Abort i\<close>: the outer \<open>select\<close> of worker \<open>i\<close> takes the
  cancellation. \<open>Cancel\<close>: the context given to \<open>Serve\<close> is cancelled. \<open>Consume\<close>: the
  reader takes a response from the output channel. A step that cannot happen in the state
  leaves it unchanged.
\<close>

datatype event = Init nat | Receive nat | Record nat | Forward nat bool | Abort nat | Cancel
  | Consume

fun pool_step :: "(string \<Rightarrow> int \<Rightarrow> go_error + 't) \<Rightarrow> ('t \<Rightarrow> Request \<Rightarrow> Response) \<Rightarrow> event
    \<Rightarrow> 't pool \<Rightarrow> 't pool" where
  "pool_step nt do (Init i) p =
     (case worker_at p i of
        Some Starting \<Rightarrow>
          (case nt (Endpoint (pclient p)) (Timeout (pclient p)) of
             Inl e \<Rightarrow> go_done (Some e) (set_worker i (Exited (Some e)) p)
           | Inr t \<Rightarrow> set_worker i (Serving t) p)
      | _ \<Rightarrow> p)"
| "pool_step nt do (Abort i) p =
     (case at_select p i of
        Some t \<Rightarrow>
          (if ctx_done p
           then go_done None (set_worker i (Exited None) (p\<lparr>logs := logs p @ [msg_aborting]\<rparr>))
           else p)
      | None \<Rightarrow> p)"
| "pool_step nt do (Receive i) p =
     (case at_select p i of
        Some t \<Rightarrow>
          (case chan_recv (In (pclient p)) of
             None \<Rightarrow> p
           | Some (req, ch) \<Rightarrow>
               (let p = p\<lparr>pclient := (pclient p)\<lparr>In := ch\<rparr>\<rparr> in
                if ID req = - 1
                then go_done None (set_worker i (Exited None) (p\<lparr>logs := logs p @ [msg_final]\<rparr>))
                else set_worker i (Handling t req) p))
      | None \<Rightarrow> p)"
| "pool_step nt do (Record i) p =
     (case worker_at p i of
        Some (Handling t req) \<Rightarrow>
          (let resp = do t req in
           case Count (Err resp) (Elapsed resp) (Stats (pclient p)) of
             Panic pn \<Rightarrow> set_worker i (Crashed pn) p
           | Return stats \<Rightarrow>
               set_worker i (Responding t resp) (p\<lparr>pclient := (pclient p)\<lparr>Stats := stats\<rparr>\<rparr>))
      | _ \<Rightarrow> p)"
| "pool_step nt do (Forward i rcv) p =
     (case worker_at p i of
        Some (Responding t resp) \<Rightarrow>
          (let (ch, lg, blocked) = forward rcv resp (out p, logs p);
               p = p\<lparr>out := ch, logs := lg\<rparr>
           in case blocked of
                None \<Rightarrow> set_worker i (Serving t) p
              | Some n \<Rightarrow> set_worker i (Sending t n) p)
      | _ \<Rightarrow> p)"
| "pool_step nt do Cancel p = p\<lparr>ctx_done := True\<rparr>"
| "pool_step nt do Consume p =
     (case chan_recv (out p) of
        None \<Rightarrow> p
      | Some (r, ch) \<Rightarrow> p\<lparr>out := ch, consumed := consumed p @ [r]\<rparr>)"

definition Serve_run :: "(string \<Rightarrow> int \<Rightarrow> go_error + 't) \<Rightarrow> ('t \<Rightarrow> Request \<Rightarrow> Response)
    \<Rightarrow> event list \<Rightarrow> 't pool \<Rightarrow> 't pool" where
  "Serve_run nt do evs p = foldl (\<lambda>p ev. pool_step nt do ev p) p evs"

text \<open>\<open>g.Wait()\<close> returns the group's error once every worker has returned; until then
  \<open>Serve\<close> has no result.\<close>

fun is_exited :: "'t worker \<Rightarrow> bool" where
  "is_exited (Exited r) = True"
| "is_exited w = False"

definition Wait :: "'t pool \<Rightarrow> go_error option option" where
  "Wait p = (if list_all is_exited (workers p) then Some (group_err p) else None)"

definition Serve :: "(string \<Rightarrow> int \<Rightarrow> go_error + 't) \<Rightarrow> ('t \<Rightarrow> Request \<Rightarrow> Response)
    \<Rightarrow> event list \<Rightarrow> Client \<Rightarrow> Response chan \<Rightarrow> 't pool \<times> go_error option option" where
  "Serve nt do evs c ch = (let p = Serve_run nt do evs (Serve_start c ch) in (p, Wait p))"

text \<open>Workers that have neither returned nor panicked, and sentinels in a queue.\<close>

fun active :: "'t worker \<Rightarrow> bool" where
  "active Starting = True"
| "active (Serving t) = True"
| "active (Handling t req) = True"
| "active (Responding t resp) = True"
| "active (Sending t n) = True"
| "active w = False"

definition finals :: "Request list \<Rightarrow> nat" where
  "finals q = length (filter (\<lambda>r. ID r = - 1) q)"

text \<open>The responses that workers hold and have not yet put on the output channel.\<close>

fun in_flight :: "('t \<Rightarrow> Request \<Rightarrow> Response) \<Rightarrow> 't worker \<Rightarrow> Response list" where
  "in_flight do (Handling t req) = [do t req]"
| "in_flight do (Responding t resp) = [resp]"
| "in_flight do w = []"



text \<open>What holds of a pool whose transport cannot be built, and of one whose transport can.\<close>

definition inv_failed :: "go_error \<Rightarrow> 't pool \<Rightarrow> bool" where
  "inv_failed e p =
     ((\<forall>w\<in>set (workers p). w = Starting \<or> w = Exited (Some e)) \<and>
      (group_err p = None \<longrightarrow> (\<forall>w\<in>set (workers p). w = Starting)) \<and>
      (group_err p \<noteq> None \<longrightarrow> group_err p = Some e))"

definition inv_built :: "'t pool \<Rightarrow> bool" where
  "inv_built p = (group_err p = None \<and> (\<forall>w\<in>set (workers p). \<forall>e. w \<noteq> Exited (Some e)))"

text \<open>
  What holds of a pool that builds its transport and is never cancelled, when \<open>m\<close>
  sentinels have been put on its queue: every worker is active or has returned nil, each
  return was logged as a shutdown by a sentinel, and the sentinels taken and those still
  in the queue are \<open>m\<close>.
\<close>

definition shutdown_inv :: "nat \<Rightarrow> 't pool \<Rightarrow> bool" where
  "shutdown_inv m p =
     (\<not> ctx_done p \<and> group_err p = None \<and>
      list_all (\<lambda>w. active w \<or> w = Exited None) (workers p) \<and>
      length (filter active (workers p)) + count_list (logs p) msg_final = length (workers p) \<and>
      count_list (logs p) msg_final + finals (pending (In (pclient p))) = m)"

text \<open>
  The responses that a pool holds: those the reader has received, those on the output
  channel, and those still with the workers. \<open>transport\<close> is the transport of a worker
  that has built one.
\<close>

definition held :: "('t \<Rightarrow> Request \<Rightarrow> Response) \<Rightarrow> 't pool \<Rightarrow> Response multiset" where
  "held do p =
     mset (consumed p) + mset (pending (out p)) + mset (concat (map (in_flight do) (workers p)))"

fun transport :: "'t worker \<Rightarrow> 't option" where
  "transport (Serving t) = Some t"
| "transport (Handling t req) = Some t"
| "transport (Responding t resp) = Some t"
| "transport (Sending t n) = Some t"
| "transport w = None"

definition answered :: "('t \<Rightarrow> Request \<Rightarrow> Response) \<Rightarrow> 't \<Rightarrow> Request list \<Rightarrow> Response list" where
  "answered do t reqs = map (do t) (filter (\<lambda>r. ID r \<noteq> - 1) reqs)"

text \<open>
  Runs that bring a pool to its end. In \<open>settle m i\<close> worker \<open>i\<close> goes on to its outer
  \<open>select\<close>: it builds its transport, records and forwards the response it holds, and the
  reader receives \<open>m\<close> times. In \<open>cancel_run k m\<close> the context is cancelled and each of the
  \<open>k\<close> workers in turn goes on to its outer \<open>select\<close> and takes the cancellation. In
  \<open>drain_run k m n\<close> each of the \<open>k\<close> workers in turn goes on to its outer \<open>select\<close> and
  takes what the queue has for it, \<open>n\<close> times over.
\<close>

definition settle :: "nat \<Rightarrow> nat \<Rightarrow> event list" where
  "settle m i = [Init i, Record i, Forward i False] @ replicate m Consume"

definition cancel_run :: "nat \<Rightarrow> nat \<Rightarrow> event list" where
  "cancel_run k m = Cancel # concat (map (\<lambda>i. settle m i @ [Abort i]) [0..<k])"

definition drain_round :: "nat \<Rightarrow> nat \<Rightarrow> event list" where
  "drain_round k m = concat (map (\<lambda>i. settle m i @ [Receive i]) [0..<k])"

definition drain_run :: "nat \<Rightarrow> nat \<Rightarrow> nat \<Rightarrow> event list" where
  "drain_run k m n = concat (replicate n (drain_round k m))"

text \<open>No worker has panicked, and the value of every worker in the blocking send has a
  position on the output channel.\<close>

fun ticket_ok :: "nat \<Rightarrow> 't worker \<Rightarrow> bool" where
  "ticket_ok np (Sending t n) = (n < np)"
| "ticket_ok np (Crashed pn) = False"
| "ticket_ok np w = True"

definition live_inv :: "'t pool \<Rightarrow> bool" where
  "live_inv p = list_all (ticket_ok (next_position (out p))) (workers p)"

text \<open>The worker that takes the step.\<close>

fun subject :: "event \<Rightarrow> nat option" where
  "subject (Init i) = Some i"
| "subject (Receive i) = Some i"
| "subject (Record i) = Some i"
| "subject (Forward i rcv) = Some i"
| "subject (Abort i) = Some i"
| "subject Cancel = None"
| "subject Consume = None"

text \<open>A worker that is at its outer \<open>select\<close>, in the blocking send, or gone.\<close>

fun settled :: "'t worker \<Rightarrow> bool" where
  "settled Starting = False"
| "settled (Handling t req) = False"
| "settled (Responding t resp) = False"
| "settled w = True"

section \<open>Properties of the statistics\<close>

subsection \<open>Arithmetic and association lists\<close>

lemma wrap64_id: "is_int64 x \<Longrightarrow> wrap64 x = x"
  by (simp add: wrap64_def is_int64_def)

lemma wrap64_small: "0 \<le> x \<Longrightarrow> x < 2 ^ 63 \<Longrightarrow> wrap64 x = x"
  by (simp add: wrap64_def)

lemma sum_nonneg: "list_all (\<lambda>v. 0 \<le> v) xs \<Longrightarrow> 0 \<le> sum_list (xs::int list)"
  by (induction xs) auto

lemma sum_nonneg_snd: "list_all (\<lambda>c. 0 \<le> snd c) cs \<Longrightarrow> 0 \<le> sum_list (map snd cs :: int list)"
  by (induction cs) auto

lemma sum_update:
  "sum_list (map snd (AList.update k v al)) =
     sum_list (map snd al) - (case map_of al k of None \<Rightarrow> 0 | Some x \<Rightarrow> x) + (v::int)"
  by (induction al) auto

lemma entry_le_sum:
  "list_all (\<lambda>v. 0 \<le> v) (map snd al) \<Longrightarrow> map_of al k = Some (x::int) \<Longrightarrow>
     0 \<le> x \<and> x \<le> sum_list (map snd al)"
proof (induction al)
  case Nil
  then show ?case by simp
next
  case (Cons a al)
  have nn: "0 \<le> sum_list (map snd al)"
    using Cons.prems(1) by (intro sum_nonneg) simp
  show ?case
  proof (cases "fst a = k")
    case True
    then show ?thesis using Cons.prems nn by (cases a) auto
  next
    case False
    then have "map_of al k = Some x" using Cons.prems(2) by (cases a) auto
    then have "0 \<le> x \<and> x \<le> sum_list (map snd al)"
      using Cons.IH Cons.prems(1) by simp
    then show ?thesis using Cons.prems(1) by auto
  qed
qed

lemma nonneg_update:
  "list_all (\<lambda>v. 0 \<le> v) (map snd al) \<Longrightarrow> 0 \<le> (v::int) \<Longrightarrow>
     list_all (\<lambda>v. 0 \<le> v) (map snd (AList.update k v al))"
  by (induction al) auto

lemma map_get_bounds:
  "list_all (\<lambda>v. 0 \<le> v) (map snd (map_entries m)) \<Longrightarrow>
     0 \<le> map_get m k \<and> map_get m k \<le> sum_list (map snd (map_entries m))"
proof (cases m)
  case None
  then show ?thesis by (simp add: map_get_def map_entries_def)
next
  case (Some al)
  assume a: "list_all (\<lambda>v. 0 \<le> v) (map snd (map_entries m))"
  show ?thesis
  proof (cases "map_of al k")
    case None
    then show ?thesis using \<open>m = Some al\<close> a sum_nonneg [of "map snd al"]
      by (simp add: map_get_def map_entries_def)
  next
    case (Some x)
    then show ?thesis using \<open>m = Some al\<close> a entry_le_sum [of al k x]
      by (simp add: map_get_def map_entries_def)
  qed
qed

lemma Count_nil:
  "Count None e s = Return (s\<lparr>NumTotal := wrap64 (NumTotal s + 1),
                              TimeTotal := wrap64 (TimeTotal s + e)\<rparr>)"
  by (simp add: Count_def)

lemma Count_err:
  "Count (Some er) e s =
     Return (s\<lparr>NumTotal := wrap64 (NumTotal s + 1),
               NumErrors := wrap64 (NumErrors s + 1),
               TimeErrors := wrap64 (TimeErrors s + e),
               Errors := Some (AList.update (Error er) (wrap64 (map_get (Errors s) (Error er) + 1))
                                 (map_entries (Errors s))),
               TimeTotal := wrap64 (TimeTotal s + e)\<rparr>)"
  by (cases "Errors s") (simp_all add: Count_def map_set_def map_get_def map_entries_def)

lemma Count_good:
  assumes g: "good_stats s" and e: "0 \<le> e"
    and n: "NumTotal s + 1 < 2 ^ 63" and t: "TimeTotal s + e < 2 ^ 63"
  shows "\<exists>s'. Count err e s = Return s' \<and> good_stats s' \<and>
              NumTotal s' = NumTotal s + 1 \<and> TimeTotal s' = TimeTotal s + e"
proof (cases err)
  case None
  have "wrap64 (NumTotal s + 1) = NumTotal s + 1"
    using g n by (intro wrap64_small) (auto simp: good_stats_def stats_consistent_def)
  moreover have "wrap64 (TimeTotal s + e) = TimeTotal s + e"
    using g t e by (intro wrap64_small) (auto simp: good_stats_def stats_consistent_def)
  ultimately show ?thesis using None g e
    by (simp add: Count_nil good_stats_def stats_consistent_def)
next
  case (Some er)
  let ?k = "Error er"
  let ?al = "map_entries (Errors s)"
  have nn: "list_all (\<lambda>v. 0 \<le> v) (map snd ?al)" using g by (simp add: good_stats_def)
  have gb: "0 \<le> map_get (Errors s) ?k" "map_get (Errors s) ?k \<le> NumErrors s"
    using map_get_bounds [OF nn, of ?k] g by (auto simp: good_stats_def stats_consistent_def)
  have w1: "wrap64 (NumTotal s + 1) = NumTotal s + 1"
    using g n by (intro wrap64_small) (auto simp: good_stats_def stats_consistent_def)
  have w2: "wrap64 (TimeTotal s + e) = TimeTotal s + e"
    using g t e by (intro wrap64_small) (auto simp: good_stats_def stats_consistent_def)
  have w3: "wrap64 (NumErrors s + 1) = NumErrors s + 1"
    using g n by (intro wrap64_small) (auto simp: good_stats_def stats_consistent_def)
  have w4: "wrap64 (TimeErrors s + e) = TimeErrors s + e"
    using g t e by (intro wrap64_small) (auto simp: good_stats_def stats_consistent_def)
  have w5: "wrap64 (map_get (Errors s) ?k + 1) = map_get (Errors s) ?k + 1"
    using gb g n by (intro wrap64_small) (auto simp: good_stats_def stats_consistent_def)
  have mg: "(case map_of ?al ?k of None \<Rightarrow> 0 | Some x \<Rightarrow> x) = map_get (Errors s) ?k"
    by (cases "Errors s") (simp_all add: map_get_def map_entries_def)
  have su: "sum_list (map snd (AList.update ?k (map_get (Errors s) ?k + 1) ?al)) = NumErrors s + 1"
    using g by (simp add: sum_update mg good_stats_def stats_consistent_def)
  have nu: "list_all (\<lambda>v. 0 \<le> v) (map snd (AList.update ?k (map_get (Errors s) ?k + 1) ?al))"
    using nn gb by (intro nonneg_update) auto
  show ?thesis using Some g e su nu
    by (simp add: Count_err w1 w2 w3 w4 w5 good_stats_def stats_consistent_def map_entries_def)
qed

lemma Count_all_good:
  "good_stats s \<Longrightarrow> list_all (\<lambda>c. 0 \<le> snd c) calls \<Longrightarrow>
   NumTotal s + int (length calls) < 2 ^ 63 \<Longrightarrow>
   TimeTotal s + sum_list (map snd calls) < 2 ^ 63 \<Longrightarrow>
   \<exists>s'. Count_all calls s = Return s' \<and> good_stats s'"
proof (induction calls arbitrary: s)
  case Nil
  then show ?case by simp
next
  case (Cons c calls)
  obtain err e where c: "c = (err, e)" by (cases c)
  have e: "0 \<le> e" using Cons.prems(2) c by simp
  have rest: "0 \<le> sum_list (map snd calls)"
    using Cons.prems(2) by (intro sum_nonneg_snd) simp
  have n: "NumTotal s + 1 < 2 ^ 63" using Cons.prems(3) by simp
  have t: "TimeTotal s + e < 2 ^ 63" using Cons.prems(4) c rest by simp
  from Count_good [OF Cons.prems(1) e n t, of err]
  obtain s1 where s1: "Count err e s = Return s1" "good_stats s1"
    "NumTotal s1 = NumTotal s + 1" "TimeTotal s1 = TimeTotal s + e" by blast
  have "\<exists>s'. Count_all calls s1 = Return s' \<and> good_stats s'"
    using Cons.prems s1 c by (intro Cons.IH) (auto simp: algebra_simps)
  then show ?case using s1 c by simp
qed

lemma good_zero: "good_stats zero_stats"
  by (simp add: good_stats_def stats_consistent_def zero_stats_def map_entries_def)

lemma foldl_Fprintf:
  "foldl (\<lambda>w e. fst (wr (f e) w)) w es = write_all wr w (map f es)"
  by (induction es arbitrary: w) (simp_all add: write_all_def)

lemma write_all_append: "write_all wr w (xs @ ys) = write_all wr (write_all wr w xs) ys"
  by (simp add: write_all_def)

lemma write_all_Cons: "write_all wr w (m # ms) = write_all wr (fst (wr m w)) ms"
  by (simp add: write_all_def)

lemma write_all_Nil: "write_all wr w [] = w"
  by (simp add: write_all_def)

lemma Render_returns_nil:
  "NumTotal stats \<noteq> 0 \<Longrightarrow> snd (Render wr w stats) = Return None"
  by (simp add: Render_def go_div_def Let_def)

lemma Render_zero:
  "NumTotal stats = 0 \<Longrightarrow>
     Render wr w stats = (Fprintf wr w ''   No requests.'' [], Panic DivideByZero)"
  by (simp add: Render_def go_div_def Let_def)

subsection \<open>Render without requests\<close>

text \<open>
  C1. The claim: with \<open>NumTotal = 0\<close>, \<open>Render\<close> writes the ``no requests'' message and
  attempts no further arithmetic. The code writes the message and goes on: on the zeroed
  aggregator the one message is written and the integer division of \<open>TimeTotal\<close> by
  \<open>NumTotal\<close> panics.
\<close>

theorem Render_no_requests_panics:
  "Render buffer_writer [] zero_stats = ([(''   No requests.'', [])], Panic DivideByZero)"
  by (simp add: Render_def zero_stats_def go_div_def Fprintf_def buffer_writer_def)

text \<open>
  C10. The claim: \<open>Render\<close> returns a nil error for every state and every writer. A
  writer that fails on every write still gives a nil result when there are requests, but
  on the zeroed aggregator \<open>Render\<close> panics and returns nothing.
\<close>

theorem Render_failing_writer_results:
  "snd (Render failing_writer () (zero_stats\<lparr>NumTotal := 1\<rparr>)) = Return None \<and>
   snd (Render failing_writer () zero_stats) = Panic DivideByZero"
  by (simp add: Render_def zero_stats_def go_div_def)

subsection \<open>Count\<close>

text \<open>
  C2. \<open>Count\<close> never fails; it increments \<open>NumTotal\<close> and adds the elapsed time to
  \<open>TimeTotal\<close>; with a nil error nothing else changes; with an error it also increments
  \<open>NumErrors\<close>, adds the elapsed time to \<open>TimeErrors\<close> and increments the entry of the
  error's message, leaving the other entries as they were. The additions are Go's, on
  \<open>int\<close> and \<open>time.Duration\<close>.
\<close>

theorem Count_effect:
  "\<exists>stats'. Count err elapsed stats = Return stats' \<and>
     NumTotal stats' = wrap64 (NumTotal stats + 1) \<and>
     TimeTotal stats' = wrap64 (TimeTotal stats + elapsed) \<and>
     (case err of
        None \<Rightarrow> NumErrors stats' = NumErrors stats \<and> TimeErrors stats' = TimeErrors stats \<and>
                Errors stats' = Errors stats
      | Some e \<Rightarrow> NumErrors stats' = wrap64 (NumErrors stats + 1) \<and>
                  TimeErrors stats' = wrap64 (TimeErrors stats + elapsed) \<and>
                  map_get (Errors stats') (Error e) = wrap64 (map_get (Errors stats) (Error e) + 1) \<and>
                  (\<forall>k. k \<noteq> Error e \<longrightarrow> map_get (Errors stats') k = map_get (Errors stats) k))"
proof (cases err)
  case None
  then show ?thesis by (simp add: Count_nil)
next
  case (Some e)
  have "map_get (Some (AList.update (Error e) v (map_entries (Errors stats)))) k =
          (if k = Error e then v else map_get (Errors stats) k)" for v k
    by (cases "Errors stats") (simp_all add: map_get_def map_entries_def update_conv')
  then show ?thesis using Some by (simp add: Count_err)
qed

theorem Count_effect_witness:
  "Count (Some (GoError ''refused'')) 7
     \<lparr>NumTotal = 4, NumErrors = 1, TimeErrors = 3, TimeTotal = 20, Errors = Some [(''refused'', 1)]\<rparr>
   = Return \<lparr>NumTotal = 5, NumErrors = 2, TimeErrors = 10, TimeTotal = 27,
             Errors = Some [(''refused'', 2)]\<rparr>"
  using Count_effect [of "Some (GoError ''refused'')" 7
     "\<lparr>NumTotal = 4, NumErrors = 1, TimeErrors = 3, TimeTotal = 20, Errors = Some [(''refused'', 1)]\<rparr>"]
  by (simp add: Count_err wrap64_def map_get_def map_entries_def)

text \<open>
  C3, as stated: after any sequence of calls with non-negative elapsed times the counters
  are consistent. It fails when a sum leaves the range of \<open>int64\<close>: a call without error
  of the longest duration followed by a failed call of one nanosecond leaves \<open>TimeTotal\<close>
  negative and \<open>TimeErrors = 1\<close>.
\<close>

theorem Count_all_overflow_counterexample:
  "\<not> holds_after stats_consistent
       (Count_all [(None, 2 ^ 63 - 1), (Some (GoError ''refused''), 1)] zero_stats)"
  by (simp add: Count_nil Count_err zero_stats_def wrap64_def stats_consistent_def
      map_entries_def map_get_def)

text \<open>
  C3, amended: for a sequence of fewer than \<open>2^63\<close> calls with non-negative elapsed times
  whose sum is below \<open>2^63\<close> nanoseconds, applied to the zeroed aggregator, no call fails
  and afterwards \<open>NumErrors \<le> NumTotal\<close>, \<open>TimeErrors \<le> TimeTotal\<close> and the entries of
  the error map sum to \<open>NumErrors\<close>; a call with a nil error never changes \<open>TimeErrors\<close>.
\<close>

theorem Count_all_consistent:
  assumes "list_all (\<lambda>c. 0 \<le> snd c) calls"
    and "int (length calls) < 2 ^ 63"
    and "sum_list (map snd calls) < 2 ^ 63"
  shows "holds_after stats_consistent (Count_all calls zero_stats) \<and>
         (\<forall>elapsed s. holds_after (\<lambda>s'. TimeErrors s' = TimeErrors s) (Count None elapsed s))"
proof -
  have "\<exists>s'. Count_all calls zero_stats = Return s' \<and> good_stats s'"
    using assms by (intro Count_all_good good_zero) (simp_all add: zero_stats_def)
  then show ?thesis by (auto simp: good_stats_def Count_nil)
qed

theorem Count_all_consistent_witness:
  "list_all (\<lambda>c. 0 \<le> snd c) [(None, 5), (Some (GoError ''refused''), 7 :: int)] \<and>
   holds_after stats_consistent
     (Count_all [(None, 5), (Some (GoError ''refused''), 7)] zero_stats)"
  using Count_all_consistent [of "[(None, 5), (Some (GoError ''refused''), 7)]"]
  by simp

subsection \<open>Render with requests\<close>

text \<open>
  C8. With \<open>NumTotal > 0\<close>, \<open>Render\<close> writes exactly the report of the specification
  and returns nil: requests per second as \<open>NumTotal / TimeTotal.Seconds()\<close>, the average
  \<open>TimeTotal / NumTotal\<close>, the error rate from \<open>100 * NumErrors\<close> and \<open>NumTotal\<close>, the mean
  error latency \<open>TimeErrors / NumErrors\<close> exactly when \<open>NumErrors > 0\<close> and
  \<open>NumErrors \<noteq> NumTotal\<close>, and one line for each error message with its count.
\<close>

theorem Render_report:
  assumes "0 < NumTotal stats"
  shows "Render wr w stats = (write_all wr w (spec_report stats), Return None)"
proof -
  have el: "(\<lambda>(msg, num). (''   * [%d] %q\<newline>'', [AInt num, AString msg])) = error_line"
    by (auto simp: error_line_def fun_eq_iff)
  show ?thesis
  proof (cases "NumErrors stats > 0 \<and> NumErrors stats \<noteq> NumTotal stats")
    case True
    then show ?thesis using assms
      by (simp add: Render_def go_div_def Let_def spec_report_def el foldl_Fprintf
          write_all_append write_all_Cons write_all_Nil Fprintf_def mult.commute)
  next
    case False
    then show ?thesis using assms
      by (auto simp add: Render_def go_div_def Let_def spec_report_def el foldl_Fprintf
          write_all_append write_all_Cons write_all_Nil Fprintf_def mult.commute)
  qed
qed

theorem Render_report_witness:
  "Render buffer_writer []
     \<lparr>NumTotal = 4, NumErrors = 1, TimeErrors = 7, TimeTotal = 10, Errors = Some [(''refused'', 1)]\<rparr>
   = ([(''   Requests/Sec: %0.2f'', [AFloat (FDiv (F64 4) (Seconds 10))]),
       ('', %s per error'', [ADuration 7]),
       (''\<newline>'', []),
       (''   Average:      %s\<newline>'', [ADuration 2]),
       (''   Errors:       %0.2f%%\<newline>'', [AFloat (FDiv (F64 100) (F64 4))]),
       (''   * [%d] %q\<newline>'', [AInt 1, AString ''refused''])], Return None)"
  using Render_report [of "\<lparr>NumTotal = 4, NumErrors = 1, TimeErrors = 7, TimeTotal = 10,
     Errors = Some [(''refused'', 1)]\<rparr>" buffer_writer "[]"]
  by (simp add: spec_report_def write_all_def buffer_writer_def wrap64_def trunc_div_def
      map_entries_def)

section \<open>Properties of Send\<close>

lemma reached_from_le: "reached_from sel i n \<le> n"
  by (induction n arbitrary: i) (simp_all split: select_case.splits)

lemma reached_from_sends: "j < reached_from sel i n \<Longrightarrow> sel (i + j) = SendCase"
proof (induction n arbitrary: i j)
  case 0
  then show ?case by simp
next
  case (Suc n)
  show ?case
  proof (cases "sel i")
    case DoneCase
    then show ?thesis using Suc.prems by simp
  next
    case SendCase
    show ?thesis
    proof (cases j)
      case 0
      then show ?thesis using SendCase by simp
    next
      case (Suc j')
      then have "j' < reached_from sel (Suc i) n" using Suc.prems SendCase by simp
      from Suc.IH [OF this] show ?thesis using \<open>j = Suc j'\<close> by simp
    qed
  qed
qed

lemma reached_from_done:
  "reached_from sel i n < n \<Longrightarrow> sel (i + reached_from sel i n) = DoneCase"
proof (induction n arbitrary: i)
  case 0
  then show ?case by simp
next
  case (Suc n)
  show ?case
  proof (cases "sel i")
    case DoneCase
    then show ?thesis by simp
  next
    case SendCase
    then have "reached_from sel (Suc i) n < n" using Suc.prems by simp
    from Suc.IH [OF this] show ?thesis using SendCase by simp
  qed
qed

lemma reached_from_all: "(\<And>j. sel j = SendCase) \<Longrightarrow> reached_from sel i n = n"
  by (induction n arbitrary: i) simp_all

lemma Send_loop_spec:
  "Send_loop sel now e idv line i cs = (cs', r) \<Longrightarrow>
     length cs' = length cs \<and>
     r = (if reached_from sel i (length cs) = length cs then None else Some e) \<and>
     (\<forall>j<length cs. cs' ! j =
        (if j < reached_from sel i (length cs)
         then (cs ! j)\<lparr>In := chan_send \<lparr>client = Some (i + j), ID = idv, Line = line,
                                          Timestamp = now (i + j)\<rparr> (In (cs ! j))\<rparr>
         else cs ! j))"
proof (induction cs arbitrary: i cs' r)
  case Nil
  then show ?case by simp
next
  case (Cons c cs)
  show ?case
  proof (cases "sel i")
    case DoneCase
    then show ?thesis using Cons.prems by auto
  next
    case SendCase
    obtain cs1 r1 where rec: "Send_loop sel now e idv line (Suc i) cs = (cs1, r1)"
      by (cases "Send_loop sel now e idv line (Suc i) cs")
    from Cons.IH [OF rec] have ih:
      "length cs1 = length cs"
      "r1 = (if reached_from sel (Suc i) (length cs) = length cs then None else Some e)"
      "\<And>j. j < length cs \<Longrightarrow> cs1 ! j =
        (if j < reached_from sel (Suc i) (length cs)
         then (cs ! j)\<lparr>In := chan_send \<lparr>client = Some (Suc i + j), ID = idv, Line = line,
                                          Timestamp = now (Suc i + j)\<rparr> (In (cs ! j))\<rparr>
         else cs ! j)"
      by auto
    have res: "cs' = c\<lparr>In := chan_send \<lparr>client = Some i, ID = idv, Line = line,
                                        Timestamp = now i\<rparr> (In c)\<rparr> # cs1" "r = r1"
      using Cons.prems SendCase rec by auto
    have nth: "cs' ! j =
        (if j < reached_from sel i (length (c # cs))
         then ((c # cs) ! j)\<lparr>In := chan_send \<lparr>client = Some (i + j), ID = idv, Line = line,
                                          Timestamp = now (i + j)\<rparr> (In ((c # cs) ! j))\<rparr>
         else (c # cs) ! j)" if "j < length (c # cs)" for j
    proof (cases j)
      case 0
      then show ?thesis using SendCase res(1) by simp
    next
      case (Suc j')
      then have "j' < length cs" using that by simp
      from ih(3) [OF this] show ?thesis using Suc SendCase res(1) by simp
    qed
    show ?thesis using ih(1,2) res nth SendCase by simp
  qed
qed

lemma Send_spec:
  assumes "Send sel now e line st = (st', r)"
  shows "id_var st' = id_var st + 1"
    and "length (clients st') = length (clients st)"
    and "r = (if reached sel (length (clients st)) = length (clients st) then None else Some e)"
    and "\<And>j. j < length (clients st) \<Longrightarrow> clients st' ! j =
        (if j < reached sel (length (clients st))
         then (clients st ! j)\<lparr>In := chan_send \<lparr>client = Some j, ID = id_var st', Line = line,
                                          Timestamp = now j\<rparr> (In (clients st ! j))\<rparr>
         else clients st ! j)"
proof -
  obtain cs' r' where l: "Send_loop sel now e (id_var st + 1) line 0 (clients st) = (cs', r')"
    by (cases "Send_loop sel now e (id_var st + 1) line 0 (clients st)")
  have st': "st' = \<lparr>id_var = id_var st + 1, clients = cs'\<rparr>" "r = r'"
    using assms l by (simp_all add: Send_def)
  from Send_loop_spec [OF l] show "id_var st' = id_var st + 1"
    and "length (clients st') = length (clients st)"
    and "r = (if reached sel (length (clients st)) = length (clients st) then None else Some e)"
    and "\<And>j. j < length (clients st) \<Longrightarrow> clients st' ! j =
        (if j < reached sel (length (clients st))
         then (clients st ! j)\<lparr>In := chan_send \<lparr>client = Some j, ID = id_var st', Line = line,
                                          Timestamp = now j\<rparr> (In (clients st ! j))\<rparr>
         else clients st ! j)"
    using st' by (simp_all add: reached_def)
qed

lemma reached_all: "(\<And>j. sel j = SendCase) \<Longrightarrow> reached sel n = n"
  by (simp add: reached_def reached_from_all)

lemma Send_all_ids:
  "Send_all calls st = (ids, st') \<Longrightarrow>
     id_var st' = id_var st + int (length calls) \<and> (\<forall>i\<in>set ids. id_var st < i \<and> i \<le> id_var st')"
proof (induction calls arbitrary: st ids st')
  case Nil
  then show ?case by simp
next
  case (Cons call calls)
  obtain env sel now e line where call: "call = (env, sel, now, e, line)"
    by (cases call)
  let ?st0 = "st\<lparr>clients := env (clients st)\<rparr>"
  obtain st1 r1 where s1: "Send sel now e line ?st0 = (st1, r1)"
    by (cases "Send sel now e line ?st0")
  obtain ids2 st2 where s2: "Send_all calls st1 = (ids2, st2)"
    by (cases "Send_all calls st1")
  have id1: "id_var st1 = id_var st + 1" using Send_spec(1) [OF s1] by simp
  have res: "ids = id_var st1 # ids2" "st' = st2"
    using Cons.prems call s1 s2 by simp_all
  from Cons.IH [OF s2] have ih: "id_var st2 = id_var st1 + int (length calls)"
    "\<forall>i\<in>set ids2. id_var st1 < i \<and> i \<le> id_var st2" by auto
  show ?case using ih id1 res by auto
qed

text \<open>
  C4. After any run of earlier \<open>Send\<close> calls from program start, and whatever the workers
  and \<open>Finalize\<close> did to the clients since, a \<open>Send\<close> call assigns the ID that is one more
  than the number of earlier calls (1 for the first call), greater than every ID assigned
  before. It puts one Request with this ID, the line and the client's position on the
  queue of every client up to the first one whose \<open>select\<close> ran the cancellation case,
  and leaves the queues after it as they were; it returns nil exactly when it reached all
  clients. A call in which no cancellation case runs reaches every client.
\<close>

theorem Send_broadcast:
  assumes "Send_all calls (start cs0) = (ids, st0)"
    and "Send sel now ctx_err line (st0\<lparr>clients := cs\<rparr>) = (st', r)"
  shows "id_var st' = int (length calls) + 1 \<and>
         (\<forall>i\<in>set ids. i < id_var st') \<and>
         length (clients st') = length cs \<and>
         r = (if reached sel (length cs) = length cs then None else Some ctx_err) \<and>
         (\<forall>j<length cs. clients st' ! j =
            (if j < reached sel (length cs)
             then (cs ! j)\<lparr>In := chan_send \<lparr>client = Some j, ID = id_var st', Line = line,
                                            Timestamp = now j\<rparr> (In (cs ! j))\<rparr>
             else cs ! j)) \<and>
         (\<forall>j<reached sel (length cs). sel j = SendCase) \<and>
         (reached sel (length cs) < length cs \<longrightarrow> sel (reached sel (length cs)) = DoneCase) \<and>
         ((\<forall>j. sel j = SendCase) \<longrightarrow> reached sel (length cs) = length cs)"
proof -
  have a: "id_var st0 = int (length calls)" "\<forall>i\<in>set ids. i \<le> id_var st0"
    using Send_all_ids [OF assms(1)] by (auto simp: start_def)
  have b: "id_var st' = id_var st0 + 1"
    using Send_spec(1) [OF assms(2)] by simp
  have c: "\<forall>j<reached sel (length cs). sel j = SendCase"
    using reached_from_sends [of _ sel 0 "length cs"] by (simp add: reached_def)
  have d: "reached sel (length cs) < length cs \<longrightarrow> sel (reached sel (length cs)) = DoneCase"
    using reached_from_done [of sel 0 "length cs"] by (simp add: reached_def)
  show ?thesis
    using a b c d Send_spec(2,3,4) [OF assms(2)] reached_all [of sel "length cs"]
    by (simp add: order_le_less_trans)
qed

theorem Send_broadcast_witness:
  "Send (\<lambda>i. SendCase) (\<lambda>i. 7) (GoError ''context canceled'') ''line''
     (start [\<lparr>Endpoint = ''a'', Concurrency = 1, Timeout = 0,
               In = \<lparr>cap = 2, pending = [], taken = 0\<rparr>, Stats = zero_stats\<rparr>,
             \<lparr>Endpoint = ''b'', Concurrency = 1, Timeout = 0,
               In = \<lparr>cap = 2, pending = [], taken = 0\<rparr>, Stats = zero_stats\<rparr>])
   = (\<lparr>id_var = 1, clients =
        [\<lparr>Endpoint = ''a'', Concurrency = 1, Timeout = 0,
          In = \<lparr>cap = 2, pending = [\<lparr>client = Some 0, ID = 1, Line = ''line'', Timestamp = 7\<rparr>],
                 taken = 0\<rparr>, Stats = zero_stats\<rparr>,
         \<lparr>Endpoint = ''b'', Concurrency = 1, Timeout = 0,
          In = \<lparr>cap = 2, pending = [\<lparr>client = Some 1, ID = 1, Line = ''line'', Timestamp = 7\<rparr>],
                 taken = 0\<rparr>, Stats = zero_stats\<rparr>]\<rparr>, None)"
  using Send_broadcast [of "[]" "[]" "[]" "start []" "\<lambda>i. SendCase" "\<lambda>i. 7"
      "GoError ''context canceled'' " "''line''"
      "[\<lparr>Endpoint = ''a'', Concurrency = 1, Timeout = 0,
               In = \<lparr>cap = 2, pending = [], taken = 0\<rparr>, Stats = zero_stats\<rparr>,
             \<lparr>Endpoint = ''b'', Concurrency = 1, Timeout = 0,
               In = \<lparr>cap = 2, pending = [], taken = 0\<rparr>, Stats = zero_stats\<rparr>]"]
  by (simp add: Send_def start_def chan_send_def)

section \<open>Properties of NewClient\<close>

lemma coerce_Concurrency: "Concurrency (coerce c) = max 1 (Concurrency c)"
  by (simp add: coerce_def)

lemma workers_Serve_start:
  "length (workers (Serve_start c ch)) = nat (max 1 (Concurrency c))"
  by (simp add: Serve_start_def coerce_Concurrency)









section \<open>Properties of Serve\<close>

lemma Serve_run_Nil: "Serve_run nt do [] p = p"
  by (simp add: Serve_run_def)

lemma Serve_run_Cons: "Serve_run nt do (ev # evs) p = Serve_run nt do evs (pool_step nt do ev p)"
  by (simp add: Serve_run_def)

lemma Serve_run_append:
  "Serve_run nt do (evs @ evs') p = Serve_run nt do evs' (Serve_run nt do evs p)"
  by (simp add: Serve_run_def)

lemma Serve_run_invariant:
  assumes "P p" and "\<And>ev q. ev \<in> set evs \<Longrightarrow> P q \<Longrightarrow> P (pool_step nt do ev q)"
  shows "P (Serve_run nt do evs p)"
  using assms
proof (induction evs arbitrary: p)
  case Nil
  then show ?case by (simp add: Serve_run_Nil)
next
  case (Cons ev evs)
  have "P (pool_step nt do ev p)" using Cons.prems by simp
  then show ?case using Cons.prems(2) by (simp add: Serve_run_Cons Cons.IH)
qed

lemma Count_returns: "\<exists>stats'. Count err elapsed stats = Return stats'"
  by (cases err) (simp_all add: Count_nil Count_err)

lemma go_done_None: "go_done None p = p"
  by (simp add: go_done_def)

lemma pool_step_cases:
  fixes nt :: "string \<Rightarrow> int \<Rightarrow> go_error + 't" and p :: "'t pool"
  obtains
    (same) "pool_step nt do ev p = p"
  | (built) i t where "ev = Init i" "worker_at p i = Some Starting"
      "nt (Endpoint (pclient p)) (Timeout (pclient p)) = Inr t"
      "pool_step nt do ev p = set_worker i (Serving t) p"
  | (failed) i e where "ev = Init i" "worker_at p i = Some Starting"
      "nt (Endpoint (pclient p)) (Timeout (pclient p)) = Inl e"
      "pool_step nt do ev p = go_done (Some e) (set_worker i (Exited (Some e)) p)"
  | (abort) i t where "ev = Abort i" "at_select p i = Some t" "ctx_done p"
      "pool_step nt do ev p = set_worker i (Exited None) (p\<lparr>logs := logs p @ [msg_aborting]\<rparr>)"
  | (final) i t req ch where "ev = Receive i" "at_select p i = Some t"
      "chan_recv (In (pclient p)) = Some (req, ch)" "ID req = - 1"
      "pool_step nt do ev p =
         set_worker i (Exited None)
           (p\<lparr>pclient := (pclient p)\<lparr>In := ch\<rparr>, logs := logs p @ [msg_final]\<rparr>)"
  | (take) i t req ch where "ev = Receive i" "at_select p i = Some t"
      "chan_recv (In (pclient p)) = Some (req, ch)" "ID req \<noteq> - 1"
      "pool_step nt do ev p = set_worker i (Handling t req) (p\<lparr>pclient := (pclient p)\<lparr>In := ch\<rparr>\<rparr>)"
  | (recorded) i t req stats where "ev = Record i" "worker_at p i = Some (Handling t req)"
      "Count (Err (do t req)) (Elapsed (do t req)) (Stats (pclient p)) = Return stats"
      "pool_step nt do ev p =
         set_worker i (Responding t (do t req)) (p\<lparr>pclient := (pclient p)\<lparr>Stats := stats\<rparr>\<rparr>)"
  | (sent) i t resp rcv where "ev = Forward i rcv" "worker_at p i = Some (Responding t resp)"
      "send_ready rcv (out p)"
      "pool_step nt do ev p = set_worker i (Serving t) (p\<lparr>out := chan_send resp (out p)\<rparr>)"
  | (blocked) i t resp rcv where "ev = Forward i rcv" "worker_at p i = Some (Responding t resp)"
      "\<not> send_ready rcv (out p)"
      "pool_step nt do ev p =
         set_worker i (Sending t (next_position (out p)))
           (p\<lparr>out := chan_send resp (out p), logs := logs p @ [msg_overloaded]\<rparr>)"
  | (cancel) "ev = Cancel" "pool_step nt do ev p = p\<lparr>ctx_done := True\<rparr>"
  | (consume) r ch where "ev = Consume" "chan_recv (out p) = Some (r, ch)"
      "pool_step nt do ev p = p\<lparr>out := ch, consumed := consumed p @ [r]\<rparr>"
proof (cases ev)
  case (Init i)
  show ?thesis
  proof (cases "worker_at p i = Some Starting")
    case False
    then have "pool_step nt do ev p = p"
      using Init by (simp split: option.splits worker.splits)
    then show ?thesis by (rule same)
  next
    case True
    show ?thesis
    proof (cases "nt (Endpoint (pclient p)) (Timeout (pclient p))")
      case (Inl e)
      show ?thesis by (rule failed [of i e]) (simp_all add: Init True Inl)
    next
      case (Inr t)
      show ?thesis by (rule built [of i t]) (simp_all add: Init True Inr)
    qed
  qed
next
  case (Receive i)
  show ?thesis
  proof (cases "at_select p i")
    case None
    then have "pool_step nt do ev p = p" using Receive by simp
    then show ?thesis by (rule same)
  next
    case (Some t)
    show ?thesis
    proof (cases "chan_recv (In (pclient p))")
      case None
      then have "pool_step nt do ev p = p" using Receive Some by simp
      then show ?thesis by (rule same)
    next
      case rc: (Some a)
      obtain req ch where a: "a = (req, ch)" by (cases a)
      show ?thesis
      proof (cases "ID req = - 1")
        case True
        show ?thesis
          by (rule final [of i t req ch]) (simp_all add: Receive Some rc a True go_done_None)
      next
        case False
        show ?thesis
          by (rule take [of i t req ch]) (simp_all add: Receive Some rc a False)
      qed
    qed
  qed
next
  case (Record i)
  show ?thesis
  proof (cases "\<exists>t req. worker_at p i = Some (Handling t req)")
    case False
    then have "pool_step nt do ev p = p"
      using Record by (simp split: option.splits worker.splits)
    then show ?thesis by (rule same)
  next
    case True
    then obtain t req where w: "worker_at p i = Some (Handling t req)" by blast
    obtain stats where c: "Count (Err (do t req)) (Elapsed (do t req)) (Stats (pclient p)) = Return stats"
      using Count_returns by blast
    show ?thesis by (rule recorded [of i t req stats]) (simp_all add: Record w c Let_def)
  qed
next
  case (Forward i rcv)
  show ?thesis
  proof (cases "\<exists>t resp. worker_at p i = Some (Responding t resp)")
    case False
    then have "pool_step nt do ev p = p"
      using Forward by (simp split: option.splits worker.splits)
    then show ?thesis by (rule same)
  next
    case True
    then obtain t resp where w: "worker_at p i = Some (Responding t resp)" by blast
    show ?thesis
    proof (cases "send_ready rcv (out p)")
      case True
      show ?thesis by (rule sent [of i rcv t resp]) (simp_all add: Forward w True forward_def)
    next
      case False
      show ?thesis by (rule blocked [of i rcv t resp]) (simp_all add: Forward w False forward_def)
    qed
  qed
next
  case (Abort i)
  show ?thesis
  proof (cases "at_select p i")
    case None
    then have "pool_step nt do ev p = p" using Abort by simp
    then show ?thesis by (rule same)
  next
    case (Some t)
    show ?thesis
    proof (cases "ctx_done p")
      case True
      show ?thesis by (rule abort [of i t]) (simp_all add: Abort Some True go_done_None)
    next
      case False
      then have "pool_step nt do ev p = p" using Abort Some by simp
      then show ?thesis by (rule same)
    qed
  qed
next
  case Cancel
  show ?thesis by (rule cancel) (simp_all add: Cancel)
next
  case Consume
  show ?thesis
  proof (cases "chan_recv (out p)")
    case None
    then have "pool_step nt do ev p = p" using Consume by simp
    then show ?thesis by (rule same)
  next
    case (Some a)
    obtain r ch where a: "a = (r, ch)" by (cases a)
    show ?thesis by (rule consume [of r ch]) (simp_all add: Consume Some a)
  qed
qed

lemma set_update_cases: "w \<in> set (xs[i := v]) \<Longrightarrow> w = v \<or> w \<in> set xs"
  using set_update_subset_insert [of xs i v] by auto

lemma worker_at_mem: "worker_at p i = Some w \<Longrightarrow> w \<in> set (workers p)"
  by (auto simp: worker_at_def split: if_splits)

lemma at_select_mem:
  "at_select p i = Some t \<Longrightarrow> Serving t \<in> set (workers p) \<or> (\<exists>n. Sending t n \<in> set (workers p))"
  using worker_at_mem [of p i]
  by (auto simp: at_select_def split: option.splits worker.splits if_splits)

lemma pool_step_endpoint:
  "Endpoint (pclient (pool_step nt do ev p)) = Endpoint (pclient p) \<and>
   Timeout (pclient (pool_step nt do ev p)) = Timeout (pclient p)"
  by (cases rule: pool_step_cases [of nt "do" ev p])
    (simp_all add: set_worker_def go_done_def)

lemma pool_step_length: "length (workers (pool_step nt do ev p)) = length (workers p)"
  by (cases rule: pool_step_cases [of nt "do" ev p])
    (simp_all add: set_worker_def go_done_def)

lemma inv_failed_step:
  assumes nt: "nt (Endpoint (pclient p)) (Timeout (pclient p)) = Inl e"
    and inv: "inv_failed e p"
  shows "inv_failed e (pool_step nt do ev p)"
proof -
  have ws: "\<And>w. w \<in> set (workers p) \<Longrightarrow> w = Starting \<or> w = Exited (Some e)"
    using inv by (simp add: inv_failed_def)
  have sel: "at_select p i \<noteq> Some t" for i t
    using ws at_select_mem [of p i t] by auto
  have noh: "worker_at p i \<noteq> Some (Handling t req)" "worker_at p i \<noteq> Some (Responding t resp)"
    for i t req resp
    using ws worker_at_mem [of p i] by auto
  show ?thesis
  proof (cases rule: pool_step_cases [of nt "do" ev p])
    case same
    then show ?thesis using inv by simp
  next
    case (built i t)
    then show ?thesis using nt by simp
  next
    case (failed i e')
    then have e': "e' = e" using nt by simp
    let ?q = "go_done (Some e) (set_worker i (Exited (Some e)) p)"
    have w': "workers ?q = (workers p)[i := Exited (Some e)]"
      by (simp add: go_done_def set_worker_def)
    have g': "group_err ?q = Some e"
      using inv by (cases "group_err p") (simp_all add: go_done_def set_worker_def inv_failed_def)
    have "\<And>w. w \<in> set (workers ?q) \<Longrightarrow> w = Starting \<or> w = Exited (Some e)"
      unfolding w' using ws set_update_cases by metis
    then have "inv_failed e ?q" using g' by (simp add: inv_failed_def)
    then show ?thesis using failed(4) e' by simp
  next
    case (abort i t)
    then show ?thesis using sel by simp
  next
    case (final i t req ch)
    then show ?thesis using sel by simp
  next
    case (take i t req ch)
    then show ?thesis using sel by simp
  next
    case (recorded i t req stats)
    then show ?thesis using noh by simp
  next
    case (sent i t resp rcv)
    then show ?thesis using noh by simp
  next
    case (blocked i t resp rcv)
    then show ?thesis using noh by simp
  next
    case cancel
    then show ?thesis using inv by (simp add: inv_failed_def)
  next
    case (consume r ch)
    then show ?thesis using inv by (simp add: inv_failed_def)
  qed
qed

lemma inv_built_step:
  assumes nt: "nt (Endpoint (pclient p)) (Timeout (pclient p)) = Inr t"
    and inv: "inv_built p"
  shows "inv_built (pool_step nt do ev p)"
proof (cases rule: pool_step_cases [of nt "do" ev p])
  case (failed i e)
  then show ?thesis using nt by simp
qed (use inv in \<open>auto simp: inv_built_def set_worker_def dest!: set_update_cases\<close>)

lemma Serve_run_endpoint:
  "Endpoint (pclient (Serve_run nt do evs p)) = Endpoint (pclient p) \<and>
   Timeout (pclient (Serve_run nt do evs p)) = Timeout (pclient p)"
  by (rule Serve_run_invariant [where P = "\<lambda>q. Endpoint (pclient q) = Endpoint (pclient p) \<and>
      Timeout (pclient q) = Timeout (pclient p)"]) (simp_all add: pool_step_endpoint)

lemma Serve_start_endpoint:
  "Endpoint (pclient (Serve_start c ch)) = Endpoint c \<and>
   Timeout (pclient (Serve_start c ch)) = Timeout c"
  by (simp add: Serve_start_def coerce_def)

lemma Serve_run_length: "length (workers (Serve_run nt do evs p)) = length (workers p)"
  by (rule Serve_run_invariant [where P = "\<lambda>q. length (workers q) = length (workers p)"])
    (simp_all add: pool_step_length)

lemma Serve_run_failed:
  fixes nt :: "string \<Rightarrow> int \<Rightarrow> go_error + 't"
  assumes "nt (Endpoint c) (Timeout c) = Inl e"
  shows "inv_failed e (Serve_run nt do evs (Serve_start c ch))"
proof -
  let ?P = "\<lambda>q. nt (Endpoint (pclient q)) (Timeout (pclient q)) = Inl e \<and> inv_failed e q"
  have "?P (Serve_run nt do evs (Serve_start c ch))"
  proof (rule Serve_run_invariant [where P = ?P])
    show "?P (Serve_start c ch)"
      using assms Serve_start_endpoint [of c ch]
      by (simp add: inv_failed_def) (simp add: Serve_start_def)
  next
    fix ev and q :: "'t pool" assume "?P q"
    then show "?P (pool_step nt do ev q)"
      using inv_failed_step [of nt q e "do" ev] by (simp add: pool_step_endpoint)
  qed
  then show ?thesis by simp
qed

lemma Serve_run_built:
  fixes nt :: "string \<Rightarrow> int \<Rightarrow> go_error + 't"
  assumes "nt (Endpoint c) (Timeout c) = Inr t"
  shows "inv_built (Serve_run nt do evs (Serve_start c ch))"
proof -
  let ?P = "\<lambda>q. nt (Endpoint (pclient q)) (Timeout (pclient q)) = Inr t \<and> inv_built q"
  have "?P (Serve_run nt do evs (Serve_start c ch))"
  proof (rule Serve_run_invariant [where P = ?P])
    show "?P (Serve_start c ch)"
      using assms Serve_start_endpoint [of c ch]
      by (simp add: inv_built_def) (simp add: Serve_start_def)
  next
    fix ev and q :: "'t pool" assume "?P q"
    then show "?P (pool_step nt do ev q)"
      using inv_built_step [of nt q t "do" ev] by (simp add: pool_step_endpoint)
  qed
  then show ?thesis by simp
qed

lemma Wait_result:
  assumes "Wait (Serve_run nt do evs (Serve_start c ch)) = Some r"
  shows "r = (case nt (Endpoint c) (Timeout c) of Inl e \<Rightarrow> Some e | Inr t \<Rightarrow> None)"
proof -
  let ?p = "Serve_run nt do evs (Serve_start c ch)"
  have all: "list_all is_exited (workers ?p)" and r: "r = group_err ?p"
    using assms by (auto simp: Wait_def split: if_splits)
  have "length (workers ?p) = nat (max 1 (Concurrency c))"
    by (simp add: Serve_run_length workers_Serve_start)
  then have "workers ?p \<noteq> []" by auto
  then obtain w where w: "w \<in> set (workers ?p)" by (cases "workers ?p") auto
  then have ex: "is_exited w" using all by (simp add: list_all_iff)
  show ?thesis
  proof (cases "nt (Endpoint c) (Timeout c)")
    case (Inl e)
    have inv: "inv_failed e ?p" using Inl by (rule Serve_run_failed)
    have "w = Exited (Some e)" using inv w ex by (auto simp: inv_failed_def)
    then have "group_err ?p \<noteq> None" using inv w by (auto simp: inv_failed_def)
    then have "group_err ?p = Some e" using inv by (simp add: inv_failed_def)
    then show ?thesis using r Inl by simp
  next
    case (Inr t)
    have "inv_built ?p" using Inr by (rule Serve_run_built)
    then show ?thesis using r Inr by (simp add: inv_built_def)
  qed
qed

lemma worker_exit_value:
  assumes "Exited (Some e) \<in> set (workers (Serve_run nt do evs (Serve_start c ch)))"
  shows "nt (Endpoint c) (Timeout c) = Inl e"
proof (cases "nt (Endpoint c) (Timeout c)")
  case (Inl e')
  have "inv_failed e' (Serve_run nt do evs (Serve_start c ch))" using Inl by (rule Serve_run_failed)
  then show ?thesis using assms Inl by (auto simp: inv_failed_def)
next
  case (Inr t)
  have "inv_built (Serve_run nt do evs (Serve_start c ch))" using Inr by (rule Serve_run_built)
  then show ?thesis using assms by (auto simp: inv_built_def)
qed

lemma worker_at_set: "worker_at p i = Some w \<Longrightarrow> worker_at (set_worker i v p) i = Some v"
  by (auto simp: worker_at_def set_worker_def split: if_splits)

lemma worker_at_go_done: "worker_at (go_done r p) i = worker_at p i"
  by (simp add: worker_at_def go_done_def split: option.splits)

lemma at_select_worker: "at_select p i = Some t \<Longrightarrow> \<exists>w. worker_at p i = Some w"
  by (auto simp: at_select_def split: option.splits)

section \<open>Properties of Finalize\<close>

declare Finalize_loop.simps [simp del]

lemma Finalize_loop_spec:
  "Finalize_loop i c =
     c\<lparr>In := (In c)\<lparr>pending := pending (In c) @ replicate (nat (Concurrency c - i)) final_request\<rparr>\<rparr>"
proof (induction i c rule: Finalize_loop.induct)
  case (1 i c)
  show ?case
  proof (cases "i < Concurrency c")
    case False
    then show ?thesis by (simp add: Finalize_loop.simps [of i c])
  next
    case True
    let ?c = "c\<lparr>In := chan_send final_request (In c)\<rparr>"
    have n: "nat (Concurrency c - i) = Suc (nat (Concurrency c - (i + 1)))"
      using True by simp
    have "Finalize_loop i c = Finalize_loop (i + 1) ?c"
      using True by (simp add: Finalize_loop.simps [of i c])
    also have "\<dots> = ?c\<lparr>In := (In ?c)\<lparr>pending := pending (In ?c)
        @ replicate (nat (Concurrency ?c - (i + 1))) final_request\<rparr>\<rparr>"
      using True by (rule "1.IH")
    also have "\<dots> = c\<lparr>In := (In c)\<lparr>pending := pending (In c)
        @ replicate (nat (Concurrency c - i)) final_request\<rparr>\<rparr>"
      by (simp add: chan_send_def n replicate_app_Cons_same)
    finally show ?thesis .
  qed
qed

lemma Finalize_nth:
  "j < length cs \<Longrightarrow>
     Finalize cs ! j = (cs ! j)\<lparr>In := (In (cs ! j))\<lparr>pending := pending (In (cs ! j))
        @ replicate (nat (Concurrency (cs ! j))) final_request\<rparr>\<rparr>"
  by (simp add: Finalize_def Finalize_loop_spec)

lemma finals_append: "finals (xs @ ys) = finals xs + finals ys"
  by (simp add: finals_def)

lemma finals_replicate: "finals (replicate n final_request) = n"
  by (simp add: finals_def final_request_def)

lemma finals_Cons: "finals (r # q) = (if ID r = - 1 then Suc (finals q) else finals q)"
  by (simp add: finals_def)

lemma chan_recv_Some: "chan_recv ch = Some (v, ch') \<Longrightarrow> pending ch = v # pending ch'"
  by (auto simp: chan_recv_def split: list.splits)

lemma filter_update_length:
  "i < length xs \<Longrightarrow>
     length (filter P (xs[i := w])) + (if P (xs ! i) then 1 else 0) =
     length (filter P xs) + (if P w then 1 else 0)"
proof (induction xs arbitrary: i)
  case Nil
  then show ?case by simp
next
  case (Cons x xs)
  show ?case
  proof (cases i)
    case 0
    then show ?thesis by simp
  next
    case (Suc j)
    then have "j < length xs" using Cons.prems by simp
    from Cons.IH [OF this] show ?thesis using Suc by simp
  qed
qed

lemma worker_at_nth: "worker_at p i = Some w \<Longrightarrow> i < length (workers p) \<and> workers p ! i = w"
  by (auto simp: worker_at_def split: if_splits)

lemma at_select_active: "at_select p i = Some t \<Longrightarrow> \<exists>w. worker_at p i = Some w \<and> active w"
  by (auto simp: at_select_def split: option.splits worker.splits if_splits)

lemma list_all_update: "list_all P xs \<Longrightarrow> P w \<Longrightarrow> list_all P (xs[i := w])"
  using set_update_cases [of _ xs i w] by (auto simp: list_all_iff)

lemma msg_final_other: "msg_overloaded \<noteq> msg_final" "msg_aborting \<noteq> msg_final"
  "msg_starting \<noteq> msg_final"
  by (simp_all add: msg_overloaded_def msg_final_def msg_aborting_def msg_starting_def)

lemma shutdown_replace:
  assumes inv: "shutdown_inv m p" and w: "worker_at p i = Some w" and a: "active w"
    and a': "active w'"
    and q: "workers q = (workers p)[i := w']" "ctx_done q = ctx_done p"
      "group_err q = group_err p"
      "count_list (logs q) msg_final = count_list (logs p) msg_final"
      "finals (pending (In (pclient q))) = finals (pending (In (pclient p)))"
  shows "shutdown_inv m q"
proof -
  have i: "i < length (workers p)" "workers p ! i = w" using worker_at_nth [OF w] by simp_all
  have "length (filter active (workers q)) = length (filter active (workers p))"
    using filter_update_length [OF i(1), of active w'] i(2) a a' q(1) by simp
  moreover have "list_all (\<lambda>w. active w \<or> w = Exited None) (workers q)"
    unfolding q(1) using inv a' by (intro list_all_update) (simp_all add: shutdown_inv_def)
  ultimately show ?thesis using inv q by (simp add: shutdown_inv_def)
qed

lemma shutdown_exit:
  assumes inv: "shutdown_inv m p" and w: "worker_at p i = Some w" and a: "active w"
    and q: "workers q = (workers p)[i := Exited None]" "ctx_done q = ctx_done p"
      "group_err q = group_err p"
      "count_list (logs q) msg_final = Suc (count_list (logs p) msg_final)"
      "Suc (finals (pending (In (pclient q)))) = finals (pending (In (pclient p)))"
  shows "shutdown_inv m q"
proof -
  have i: "i < length (workers p)" "workers p ! i = w" using worker_at_nth [OF w] by simp_all
  have "length (filter active (workers q)) + 1 = length (filter active (workers p))"
    using filter_update_length [OF i(1), of active "Exited None"] i(2) a q(1) by simp
  moreover have "list_all (\<lambda>w. active w \<or> w = Exited None) (workers q)"
    unfolding q(1) using inv by (intro list_all_update) (simp_all add: shutdown_inv_def)
  ultimately show ?thesis using inv q by (simp add: shutdown_inv_def)
qed

lemma shutdown_step:
  assumes nt: "nt (Endpoint (pclient p)) (Timeout (pclient p)) = Inr t"
    and ev: "ev \<noteq> Cancel"
    and inv: "shutdown_inv m p"
  shows "shutdown_inv m (pool_step nt do ev p)"
proof (cases rule: pool_step_cases [of nt "do" ev p])
  case same
  then show ?thesis using inv by simp
next
  case (built i t')
  have "active Starting" by simp
  from shutdown_replace [OF inv built(2) this, of "Serving t'" "pool_step nt do ev p"]
  show ?thesis using built(4) by (simp add: set_worker_def)
next
  case (failed i e)
  then show ?thesis using nt by simp
next
  case (abort i t')
  then show ?thesis using inv by (simp add: shutdown_inv_def)
next
  case (final i t' req ch)
  obtain w where w: "worker_at p i = Some w" "active w"
    using at_select_active [OF final(2)] by blast
  have "pending (In (pclient p)) = req # pending ch"
    using final(3) by (rule chan_recv_Some)
  then have f: "Suc (finals (pending ch)) = finals (pending (In (pclient p)))"
    using final(4) by (simp add: finals_Cons)
  from shutdown_exit [OF inv w, of "pool_step nt do ev p"]
  show ?thesis using final(5) f by (simp add: set_worker_def)
next
  case (take i t' req ch)
  obtain w where w: "worker_at p i = Some w" "active w"
    using at_select_active [OF take(2)] by blast
  have "pending (In (pclient p)) = req # pending ch"
    using take(3) by (rule chan_recv_Some)
  then have f: "finals (pending ch) = finals (pending (In (pclient p)))"
    using take(4) by (simp add: finals_Cons)
  have "active (Handling t' req)" by simp
  from shutdown_replace [OF inv w this, of "pool_step nt do ev p"]
  show ?thesis using take(5) f by (simp add: set_worker_def)
next
  case (recorded i t' req stats)
  have "active (Handling t' req)" "active (Responding t' (do t' req))" by simp_all
  from shutdown_replace [OF inv recorded(2) this, of "pool_step nt do ev p"]
  show ?thesis using recorded(4) by (simp add: set_worker_def)
next
  case (sent i t' resp rcv)
  have "active (Responding t' resp)" "active (Serving t')" by simp_all
  from shutdown_replace [OF inv sent(2) this, of "pool_step nt do ev p"]
  show ?thesis using sent(4) by (simp add: set_worker_def)
next
  case (blocked i t' resp rcv)
  have "active (Responding t' resp)" "active (Sending t' (next_position (out p)))" by simp_all
  from shutdown_replace [OF inv blocked(2) this, of "pool_step nt do ev p"]
  show ?thesis using blocked(4) msg_final_other by (simp add: set_worker_def)
next
  case cancel
  then show ?thesis using ev by simp
next
  case (consume r ch)
  then show ?thesis using inv by (simp add: shutdown_inv_def)
qed

lemma shutdown_run:
  fixes nt :: "string \<Rightarrow> int \<Rightarrow> go_error + 't"
  assumes nt: "nt (Endpoint (pclient p)) (Timeout (pclient p)) = Inr t"
    and ev: "Cancel \<notin> set evs"
    and inv: "shutdown_inv m p"
  shows "shutdown_inv m (Serve_run nt do evs p)"
proof -
  let ?P = "\<lambda>q. nt (Endpoint (pclient q)) (Timeout (pclient q)) = Inr t \<and> shutdown_inv m q"
  have "?P (Serve_run nt do evs p)"
  proof (rule Serve_run_invariant [where P = ?P])
    show "?P p" using nt inv by simp
  next
    fix e and q :: "'t pool" assume "e \<in> set evs" "?P q"
    then show "?P (pool_step nt do e q)"
      using shutdown_step [of nt q t e m "do"] ev by (auto simp: pool_step_endpoint)
  qed
  then show ?thesis by simp
qed

lemma pool_step_Concurrency:
  "Concurrency (pclient (pool_step nt do ev p)) = Concurrency (pclient p)"
  by (cases rule: pool_step_cases [of nt "do" ev p])
    (simp_all add: set_worker_def go_done_def)

lemma Serve_run_Concurrency:
  "Concurrency (pclient (Serve_run nt do evs p)) = Concurrency (pclient p)"
  by (rule Serve_run_invariant [where P = "\<lambda>q. Concurrency (pclient q) = Concurrency (pclient p)"])
    (simp_all add: pool_step_Concurrency)

lemma shutdown_start:
  "finals (pending (In c)) = 0 \<Longrightarrow> shutdown_inv 0 (Serve_start c ch)"
  by (simp add: shutdown_inv_def Serve_start_def coerce_def msg_final_other list_all_iff)

lemma filter_active_all:
  "list_all (\<lambda>w. active w \<or> w = Exited None) ws \<Longrightarrow> length (filter active ws) = 0 \<Longrightarrow>
     list_all (\<lambda>w. w = Exited None) ws"
  by (induction ws) (auto split: if_splits)

lemma is_exited_all: "list_all (\<lambda>w. w = Exited None) ws \<Longrightarrow> list_all is_exited ws"
  by (induction ws) auto

lemma shutdown_finalized_first:
  assumes c: "1 \<le> Concurrency c" and real: "finals (pending (In c)) = 0"
    and j: "j < length cs" "cs ! j = c"
  shows "shutdown_inv (nat (Concurrency c)) (Serve_start (Finalize cs ! j) ch)"
proof -
  have fin: "Finalize cs ! j = c\<lparr>In := (In c)\<lparr>pending :=
      pending (In c) @ replicate (nat (Concurrency c)) final_request\<rparr>\<rparr>"
    using Finalize_nth [OF j(1)] j(2) by simp
  show ?thesis
    using c real
    by (simp add: fin shutdown_inv_def Serve_start_def coerce_def msg_final_other list_all_iff
        finals_append finals_replicate)
qed

lemmas pool_eval = Serve_run_def Serve_start_def coerce_def Wait_def worker_at_def
  set_worker_def at_select_def chan_recv_def chan_send_def final_request_def go_done_def
  forward_def send_ready_def buffer_full_def next_position_def send_blocked_def
  Finalize_nth finals_def Count_nil Count_err zero_stats_def wrap64_def map_get_def
  map_entries_def msg_final_def msg_starting_def msg_overloaded_def msg_aborting_def

lemma active_not_exited: "active w \<Longrightarrow> \<not> is_exited w"
  by (cases w) simp_all

lemma Finalize_low_Concurrency:
  assumes "Concurrency c < 1" and "j < length cs" and "cs ! j = c"
  shows "Finalize cs ! j = c"
  using assms by (simp add: Finalize_nth)

lemma Finalize_before_Serve_never_returns:
  fixes nt :: "string \<Rightarrow> int \<Rightarrow> go_error + 't"
  assumes tr: "nt (Endpoint c) (Timeout c) = Inr t" and c: "Concurrency c < 1"
    and real: "finals (pending (In c)) = 0" and nc: "Cancel \<notin> set evs"
    and j: "j < length cs" "cs ! j = c"
  shows "snd (Serve nt do evs (Finalize cs ! j) ch) = None"
proof -
  let ?p = "Serve_run nt do evs (Serve_start c ch)"
  have ep: "nt (Endpoint (pclient (Serve_start c ch))) (Timeout (pclient (Serve_start c ch))) = Inr t"
    using tr by (simp add: Serve_start_endpoint)
  have inv: "shutdown_inv 0 ?p"
    using ep nc shutdown_start [OF real] by (rule shutdown_run)
  have "length (workers ?p) = nat (max 1 (Concurrency c))"
    by (simp add: Serve_run_length workers_Serve_start)
  then have "length (filter active (workers ?p)) = 1"
    using inv c by (simp add: shutdown_inv_def)
  then have "filter active (workers ?p) \<noteq> []" by auto
  then obtain w where "w \<in> set (workers ?p)" "active w"
    by (auto simp: filter_empty_conv)
  then have "\<not> list_all is_exited (workers ?p)"
    using active_not_exited by (auto simp: list_all_iff)
  then have "Wait ?p = None" by (simp add: Wait_def)
  then show ?thesis
    using Finalize_low_Concurrency [OF c j] by (simp add: Serve_def Let_def)
qed

text \<open>
  C5. For every endpoint, also one made with a concurrency below 1, \<open>Finalize\<close> is to put
  as many sentinels on the queue as the pool has workers, so that every worker takes one
  and returns. \<open>Finalize\<close> reads the \<open>Concurrency\<close> field as it is when it runs. On the
  client that \<open>NewClient\<close> makes for a concurrency of 0, a \<open>Finalize\<close> before \<open>Serve\<close> starts
  puts no sentinel on the queue; \<open>Serve\<close> then raises the concurrency to 1 and starts one
  worker, which builds its transport and waits at the empty queue: \<open>Serve\<close> has no result.
\<close>

theorem Finalize_before_Serve_hangs:
  "NewClient (2 ^ 48) ''a'' 0 =
     Return (\<lparr>Endpoint = ''a'', Concurrency = 0, Timeout = 0,
              In = \<lparr>cap = 0, pending = [], taken = 0\<rparr>, Stats = zero_stats\<rparr>, None) \<and>
   pending (In (Finalize
      [\<lparr>Endpoint = ''a'', Concurrency = 0, Timeout = 0,
        In = \<lparr>cap = 0, pending = [], taken = 0\<rparr>, Stats = zero_stats\<rparr>] ! 0)) = [] \<and>
   Serve (\<lambda>ep tmo. Inr (0::nat)) (\<lambda>t req. \<lparr>Err = None, Elapsed = 1\<rparr>) [Init 0, Receive 0]
     (Finalize
        [\<lparr>Endpoint = ''a'', Concurrency = 0, Timeout = 0,
          In = \<lparr>cap = 0, pending = [], taken = 0\<rparr>, Stats = zero_stats\<rparr>] ! 0)
     \<lparr>cap = 1, pending = [], taken = 0\<rparr>
   = (\<lparr>pclient = \<lparr>Endpoint = ''a'', Concurrency = 1, Timeout = 0,
                    In = \<lparr>cap = 0, pending = [], taken = 0\<rparr>, Stats = zero_stats\<rparr>,
       out = \<lparr>cap = 1, pending = [], taken = 0\<rparr>, consumed = [], logs = [msg_starting],
       ctx_done = False, group_err = None, workers = [Serving 0]\<rparr>, None)"
  by (simp add: NewClient_def make_chan_def wrap64_def Serve_def Let_def Serve_run_def
      Serve_start_def coerce_def Wait_def worker_at_def set_worker_def at_select_def
      chan_recv_def Finalize_nth zero_stats_def)

section \<open>Responses are not lost\<close>

lemma mset_in_flight_update:
  "i < length ws \<Longrightarrow>
     mset (concat (map f (ws[i := w]))) + mset (f (ws ! i)) = mset (concat (map f ws)) + mset (f w)"
proof (induction ws arbitrary: i)
  case Nil
  then show ?case by simp
next
  case (Cons x ws)
  show ?case
  proof (cases i)
    case 0
    then show ?thesis by simp
  next
    case (Suc j)
    then have "j < length ws" using Cons.prems by simp
    from Cons.IH [OF this] show ?thesis using Suc by (simp add: ac_simps)
  qed
qed

lemma held_update:
  assumes w: "worker_at p i = Some w"
    and q: "workers q = (workers p)[i := w']"
  shows "held do q + mset (in_flight do w) =
         mset (consumed q) + mset (pending (out q)) +
         mset (concat (map (in_flight do) (workers p))) + mset (in_flight do w')"
proof -
  have i: "i < length (workers p)" "workers p ! i = w" using worker_at_nth [OF w] by simp_all
  show ?thesis
    using mset_in_flight_update [OF i(1), of "in_flight do" w'] i(2) q
    by (simp add: held_def ac_simps)
qed

lemma drop_head:
  assumes "drop n q0 = r # rest"
  shows "n < length q0 \<and> drop (Suc n) q0 = rest \<and> take (Suc n) q0 = take n q0 @ [r]"
proof -
  have n: "n < length q0" using assms by (cases "n < length q0") simp_all
  have "q0 ! n = r" using assms n by (metis nth_via_drop)
  then have "take (Suc n) q0 = take n q0 @ [r]" using n by (simp add: take_Suc_conv_app_nth)
  moreover have "drop (Suc n) q0 = rest" using assms by (metis drop_Suc tl_drop list.sel(3))
  ultimately show ?thesis using n by simp
qed

lemma at_select_idle:
  "at_select p i = Some t \<Longrightarrow>
     \<exists>w. worker_at p i = Some w \<and> transport w = Some t \<and> in_flight do w = []"
  by (auto simp: at_select_def split: option.splits worker.splits if_splits)

lemma answered_snoc:
  "answered do t (reqs @ [r]) = (if ID r = - 1 then answered do t reqs else answered do t reqs @ [do t r])"
  by (simp add: answered_def)

lemma transports_step:
  assumes nt: "nt (Endpoint (pclient p)) (Timeout (pclient p)) = Inr t"
    and inv: "list_all (\<lambda>w. transport w = None \<or> transport w = Some t) (workers p)"
  shows "list_all (\<lambda>w. transport w = None \<or> transport w = Some t) (workers (pool_step nt do ev p))"
proof -
  have tw: "transport w = None \<or> transport w = Some t" if "worker_at p i = Some w" for i w
    using inv worker_at_mem [OF that] by (simp add: list_all_iff)
  have ts: "t' = t" if "at_select p i = Some t'" for i t'
    using at_select_idle [OF that] tw by fastforce
  show ?thesis
  proof (cases rule: pool_step_cases [of nt "do" ev p])
    case same
    then show ?thesis using inv by simp
  next
    case (built i t')
    show ?thesis unfolding built(4) using inv nt built(3)
      by (simp add: set_worker_def list_all_update)
  next
    case (failed i e)
    then show ?thesis using nt by simp
  next
    case (abort i t')
    show ?thesis unfolding abort(4) using inv by (simp add: set_worker_def list_all_update)
  next
    case (final i t' req ch)
    show ?thesis unfolding final(5) using inv by (simp add: set_worker_def list_all_update)
  next
    case (take i t' req ch)
    show ?thesis unfolding take(5) using inv ts [OF take(2)]
      by (simp add: set_worker_def list_all_update)
  next
    case (recorded i t' req stats)
    show ?thesis unfolding recorded(4) using inv tw [OF recorded(2)]
      by (simp add: set_worker_def list_all_update)
  next
    case (sent i t' resp rcv)
    show ?thesis unfolding sent(4) using inv tw [OF sent(2)]
      by (simp add: set_worker_def list_all_update)
  next
    case (blocked i t' resp rcv)
    show ?thesis unfolding blocked(4) using inv tw [OF blocked(2)]
      by (simp add: set_worker_def list_all_update)
  next
    case cancel
    show ?thesis unfolding cancel(2) using inv by simp
  next
    case (consume r ch)
    show ?thesis unfolding consume(3) using inv by simp
  qed
qed

lemma lossless_step:
  assumes nt: "nt (Endpoint (pclient p)) (Timeout (pclient p)) = Inr t"
    and tr: "list_all (\<lambda>w. transport w = None \<or> transport w = Some t) (workers p)"
    and inv: "\<exists>n\<le>length q0. pending (In (pclient p)) = drop n q0 \<and>
                held do p = mset o0 + mset (answered do t (take n q0))"
  shows "\<exists>n\<le>length q0. pending (In (pclient (pool_step nt do ev p))) = drop n q0 \<and>
           held do (pool_step nt do ev p) = mset o0 + mset (answered do t (take n q0))"
proof -
  obtain n where n: "n \<le> length q0" "pending (In (pclient p)) = drop n q0"
    "held do p = mset o0 + mset (answered do t (take n q0))"
    using inv by blast
  have tw: "transport w = None \<or> transport w = Some t" if "worker_at p i = Some w" for i w
    using tr worker_at_mem [OF that] by (simp add: list_all_iff)
  let ?q = "pool_step nt do ev p"
  have keep: "\<exists>n\<le>length q0. pending (In (pclient ?q)) = drop n q0 \<and>
           held do ?q = mset o0 + mset (answered do t (take n q0))"
    if "pending (In (pclient ?q)) = pending (In (pclient p))" "held do ?q = held do p"
    using that n by auto
  show ?thesis
  proof (cases rule: pool_step_cases [of nt "do" ev p])
    case same
    then show ?thesis using inv by simp
  next
    case (built i t')
    have "held do ?q + mset (in_flight do Starting) =
        mset (consumed ?q) + mset (pending (out ?q)) +
        mset (concat (map (in_flight do) (workers p))) + mset (in_flight do (Serving t'))"
      using built(4) by (intro held_update [OF built(2)]) (simp add: set_worker_def)
    then have "held do ?q = held do p" using built(4) by (simp add: held_def set_worker_def)
    then show ?thesis using built(4) by (intro keep) (simp_all add: set_worker_def)
  next
    case (failed i e)
    then show ?thesis using nt by simp
  next
    case (abort i t')
    obtain w where w: "worker_at p i = Some w" "in_flight do w = []"
      using at_select_idle [OF abort(2), of "do"] by blast
    have "held do ?q + mset (in_flight do w) =
        mset (consumed ?q) + mset (pending (out ?q)) +
        mset (concat (map (in_flight do) (workers p))) + mset (in_flight do (Exited None))"
      using abort(4) by (intro held_update [OF w(1)]) (simp add: set_worker_def)
    then have "held do ?q = held do p" using abort(4) w(2) by (simp add: held_def set_worker_def)
    then show ?thesis using abort(4) by (intro keep) (simp_all add: set_worker_def)
  next
    case (final i t' req ch)
    obtain w where w: "worker_at p i = Some w" "in_flight do w = []"
      using at_select_idle [OF final(2), of "do"] by blast
    have "held do ?q + mset (in_flight do w) =
        mset (consumed ?q) + mset (pending (out ?q)) +
        mset (concat (map (in_flight do) (workers p))) + mset (in_flight do (Exited None))"
      using final(5) by (intro held_update [OF w(1)]) (simp add: set_worker_def)
    then have h: "held do ?q = held do p" using final(5) w(2) by (simp add: held_def set_worker_def)
    have "drop n q0 = req # pending ch" using chan_recv_Some [OF final(3)] n(2) by simp
    from drop_head [OF this] have d: "Suc n \<le> length q0" "drop (Suc n) q0 = pending ch"
      "take (Suc n) q0 = take n q0 @ [req]" by simp_all
    have "pending (In (pclient ?q)) = drop (Suc n) q0" using final(5) d(2) by (simp add: set_worker_def)
    moreover have "held do ?q = mset o0 + mset (answered do t (take (Suc n) q0))"
      using h n(3) final(4) by (simp add: d(3) answered_snoc)
    ultimately show ?thesis using d(1) by blast
  next
    case (take i t' req ch)
    obtain w where w: "worker_at p i = Some w" "transport w = Some t'" "in_flight do w = []"
      using at_select_idle [OF take(2), of "do"] by blast
    have t': "t' = t" using tw [OF w(1)] w(2) by simp
    have "held do ?q + mset (in_flight do w) =
        mset (consumed ?q) + mset (pending (out ?q)) +
        mset (concat (map (in_flight do) (workers p))) + mset (in_flight do (Handling t' req))"
      using take(5) by (intro held_update [OF w(1)]) (simp add: set_worker_def)
    then have h: "held do ?q = held do p + {#do t req#}"
      using take(5) w(3) t' by (simp add: held_def set_worker_def)
    have "drop n q0 = req # pending ch" using chan_recv_Some [OF take(3)] n(2) by simp
    from drop_head [OF this] have d: "Suc n \<le> length q0" "drop (Suc n) q0 = pending ch"
      "take (Suc n) q0 = take n q0 @ [req]" by simp_all
    have "pending (In (pclient ?q)) = drop (Suc n) q0" using take(5) d(2) by (simp add: set_worker_def)
    moreover have "held do ?q = mset o0 + mset (answered do t (take (Suc n) q0))"
      using h n(3) take(4) by (simp add: d(3) answered_snoc)
    ultimately show ?thesis using d(1) by blast
  next
    case (recorded i t' req stats)
    have "held do ?q + mset (in_flight do (Handling t' req)) =
        mset (consumed ?q) + mset (pending (out ?q)) +
        mset (concat (map (in_flight do) (workers p))) +
        mset (in_flight do (Responding t' (do t' req)))"
      using recorded(4) by (intro held_update [OF recorded(2)]) (simp add: set_worker_def)
    then have "held do ?q = held do p" using recorded(4) by (simp add: held_def set_worker_def)
    then show ?thesis using recorded(4) by (intro keep) (simp_all add: set_worker_def)
  next
    case (sent i t' resp rcv)
    have "held do ?q + mset (in_flight do (Responding t' resp)) =
        mset (consumed ?q) + mset (pending (out ?q)) +
        mset (concat (map (in_flight do) (workers p))) + mset (in_flight do (Serving t'))"
      using sent(4) by (intro held_update [OF sent(2)]) (simp add: set_worker_def)
    then have "held do ?q = held do p"
      using sent(4) by (simp add: held_def set_worker_def chan_send_def)
    then show ?thesis using sent(4) by (intro keep) (simp_all add: set_worker_def)
  next
    case (blocked i t' resp rcv)
    have "held do ?q + mset (in_flight do (Responding t' resp)) =
        mset (consumed ?q) + mset (pending (out ?q)) +
        mset (concat (map (in_flight do) (workers p))) +
        mset (in_flight do (Sending t' (next_position (out p))))"
      using blocked(4) by (intro held_update [OF blocked(2)]) (simp add: set_worker_def)
    then have "held do ?q = held do p"
      using blocked(4) by (simp add: held_def set_worker_def chan_send_def)
    then show ?thesis using blocked(4) by (intro keep) (simp_all add: set_worker_def)
  next
    case cancel
    then show ?thesis by (intro keep) (simp_all add: held_def)
  next
    case (consume r ch)
    have "pending (out p) = r # pending ch" using consume(2) by (rule chan_recv_Some)
    then show ?thesis using consume(3) by (intro keep) (simp_all add: held_def)
  qed
qed

lemma lossless_run:
  fixes nt :: "string \<Rightarrow> int \<Rightarrow> go_error + 't"
  assumes nt: "nt (Endpoint c) (Timeout c) = Inr t"
  shows "\<exists>n\<le>length (pending (In c)).
           pending (In (pclient (Serve_run nt do evs (Serve_start c ch)))) = drop n (pending (In c)) \<and>
           held do (Serve_run nt do evs (Serve_start c ch)) =
             mset (pending ch) + mset (answered do t (take n (pending (In c))))"
proof -
  let ?P = "\<lambda>q. nt (Endpoint (pclient q)) (Timeout (pclient q)) = Inr t \<and>
      list_all (\<lambda>w. transport w = None \<or> transport w = Some t) (workers q) \<and>
      (\<exists>n\<le>length (pending (In c)). pending (In (pclient q)) = drop n (pending (In c)) \<and>
          held do q = mset (pending ch) + mset (answered do t (take n (pending (In c)))))"
  have "?P (Serve_run nt do evs (Serve_start c ch))"
  proof (rule Serve_run_invariant [where P = ?P])
    have "pending (In (pclient (Serve_start c ch))) = drop 0 (pending (In c)) \<and>
          held do (Serve_start c ch) = mset (pending ch) + mset (answered do t (take 0 (pending (In c))))"
      by (simp add: Serve_start_def coerce_def held_def answered_def)
    then have "\<exists>n\<le>length (pending (In c)).
        pending (In (pclient (Serve_start c ch))) = drop n (pending (In c)) \<and>
        held do (Serve_start c ch) = mset (pending ch) + mset (answered do t (take n (pending (In c))))"
      by blast
    moreover have "list_all (\<lambda>w. transport w = None \<or> transport w = Some t)
        (workers (Serve_start c ch))"
      by (simp add: Serve_start_def list_all_iff)
    ultimately show "?P (Serve_start c ch)" using nt by (simp add: Serve_start_endpoint)
  next
    fix e and q :: "'t pool" assume "?P q"
    then show "?P (pool_step nt do e q)"
      using transports_step [of nt q t "do" e] lossless_step [of nt q t "pending (In c)" "do" "pending ch" e]
      by (simp add: pool_step_endpoint)
  qed
  then show ?thesis by simp
qed

lemma Consume_all:
  "consumed (Serve_run nt do (replicate (length (pending (out p))) Consume) p) =
     consumed p @ pending (out p) \<and>
   pending (out (Serve_run nt do (replicate (length (pending (out p))) Consume) p)) = []"
proof (induction "pending (out p)" arbitrary: p)
  case Nil
  then show ?case by (simp add: Serve_run_Nil)
next
  case (Cons r rs)
  let ?q = "pool_step nt do Consume p"
  have q: "?q = p\<lparr>out := (out p)\<lparr>pending := rs, taken := Suc (taken (out p))\<rparr>,
      consumed := consumed p @ [r]\<rparr>"
    using Cons(2) [symmetric] by (simp add: chan_recv_def)
  have "rs = pending (out ?q)" unfolding q by simp
  from Cons(1) [OF this] show ?case
    using Cons(2) [symmetric] unfolding Serve_run_def by (simp del: pool_step.simps add: q)
qed

text \<open>
  C7. The inner \<open>select\<close> always puts the response on the output channel: at once and
  without a warning when the channel is ready; and only when its buffer is full, after the
  warning, by the blocking send that keeps the worker at the position of its value. In
  every run of a pool, the responses to the requests taken from the queue (the sentinels
  apart) are exactly the responses the reader has received, those on the output channel
  and those still with the workers: none is dropped. A reader that goes on receiving gets
  all that is on the channel.
\<close>

theorem Serve_no_response_lost:
  fixes nt :: "string \<Rightarrow> int \<Rightarrow> go_error + 't"
  assumes "nt (Endpoint c) (Timeout c) = Inr t"
    and "p = Serve_run nt do evs (Serve_start c ch)"
  shows "(\<forall>rcv resp och lg.
            fst (forward rcv resp (och, lg)) = chan_send resp och \<and>
            (send_ready rcv och \<longrightarrow> snd (forward rcv resp (och, lg)) = (lg, None)) \<and>
            (\<not> send_ready rcv och \<longrightarrow> buffer_full och \<and>
               snd (forward rcv resp (och, lg)) =
                 (lg @ [msg_overloaded], Some (next_position och)))) \<and>
         (\<exists>n\<le>length (pending (In c)).
            pending (In (pclient p)) = drop n (pending (In c)) \<and>
            held do p = mset (pending ch) + mset (answered do t (take n (pending (In c))))) \<and>
         consumed (Serve_run nt do (replicate (length (pending (out p))) Consume) p) =
           consumed p @ pending (out p)"
proof -
  have "fst (forward rcv resp (och, lg)) = chan_send resp och \<and>
        (send_ready rcv och \<longrightarrow> snd (forward rcv resp (och, lg)) = (lg, None)) \<and>
        (\<not> send_ready rcv och \<longrightarrow> buffer_full och \<and>
           snd (forward rcv resp (och, lg)) = (lg @ [msg_overloaded], Some (next_position och)))"
    for rcv resp and och :: "Response chan" and lg
    by (simp add: forward_def send_ready_def)
  then show ?thesis
    using lossless_run [of nt c t "do" evs ch] Consume_all [of nt "do" p] assms
    by simp
qed

theorem Serve_no_response_lost_witness:
  "held (\<lambda>t req. \<lparr>Err = None, Elapsed = 1\<rparr>)
     (Serve_run (\<lambda>ep tmo. Inr (0::nat)) (\<lambda>t req. \<lparr>Err = None, Elapsed = 1\<rparr>)
        [Init 0, Receive 0, Record 0, Forward 0 False, Receive 0, Record 0, Forward 0 False,
         Consume]
        (Serve_start
           \<lparr>Endpoint = ''a'', Concurrency = 1, Timeout = 0,
            In = \<lparr>cap = 2, pending = [\<lparr>client = Some 0, ID = 1, Line = ''x'', Timestamp = 0\<rparr>,
                                     \<lparr>client = Some 0, ID = 2, Line = ''y'', Timestamp = 0\<rparr>],
                   taken = 0\<rparr>,
            Stats = zero_stats\<rparr>
           \<lparr>cap = 1, pending = [], taken = 0\<rparr>))
   = {#\<lparr>Err = None, Elapsed = 1\<rparr>, \<lparr>Err = None, Elapsed = 1\<rparr>#}"
  using Serve_no_response_lost [of "\<lambda>ep tmo. Inr (0::nat)"
      "\<lparr>Endpoint = ''a'', Concurrency = 1, Timeout = 0,
            In = \<lparr>cap = 2, pending = [\<lparr>client = Some 0, ID = 1, Line = ''x'', Timestamp = 0\<rparr>,
                                     \<lparr>client = Some 0, ID = 2, Line = ''y'', Timestamp = 0\<rparr>],
                   taken = 0\<rparr>,
            Stats = zero_stats\<rparr>" 0 _ "\<lambda>t req. \<lparr>Err = None, Elapsed = 1\<rparr>"
      "[Init 0, Receive 0, Record 0, Forward 0 False, Receive 0, Record 0, Forward 0 False,
         Consume]" "\<lparr>cap = 1, pending = [], taken = 0\<rparr>", OF _ refl]
  by (simp add: held_def Serve_run_def Serve_start_def coerce_def worker_at_def
      set_worker_def at_select_def chan_recv_def chan_send_def
      forward_def send_ready_def buffer_full_def next_position_def send_blocked_def
      Count_nil zero_stats_def wrap64_def Let_def)

section \<open>Serve returns\<close>

lemma ticket_ok_mono: "ticket_ok a w \<Longrightarrow> a \<le> b \<Longrightarrow> ticket_ok b w"
  by (cases w) auto

lemma live_inv_workers:
  assumes "live_inv p" and "workers q = workers p"
    and "next_position (out p) \<le> next_position (out q)"
  shows "live_inv q"
  using assms ticket_ok_mono unfolding live_inv_def list_all_iff by metis

lemma live_inv_update:
  assumes "live_inv p" and "workers q = (workers p)[i := w]"
    and "next_position (out p) \<le> next_position (out q)"
    and "ticket_ok (next_position (out q)) w"
  shows "live_inv q"
proof -
  have "list_all (ticket_ok (next_position (out q))) (workers p)"
    using assms(1,3) ticket_ok_mono unfolding live_inv_def list_all_iff by metis
  then show ?thesis
    unfolding live_inv_def assms(2) using assms(4) by (rule list_all_update)
qed

lemma next_position_send: "next_position (chan_send v ch) = Suc (next_position ch)"
  by (simp add: next_position_def chan_send_def)

lemma next_position_recv: "chan_recv ch = Some (v, ch') \<Longrightarrow> next_position ch' = next_position ch"
  by (auto simp: next_position_def chan_recv_def split: list.splits)

lemma live_step:
  assumes inv: "live_inv p"
  shows "live_inv (pool_step nt do ev p)"
proof (cases rule: pool_step_cases [of nt "do" ev p])
  case same
  then show ?thesis using inv by simp
next
  case (built i t)
  show ?thesis unfolding built(4)
    by (rule live_inv_update [OF inv, where i = i and w = "Serving t"])
      (simp_all add: set_worker_def)
next
  case (failed i e)
  show ?thesis unfolding failed(4)
    by (rule live_inv_update [OF inv, where i = i and w = "Exited (Some e)"])
      (simp_all add: set_worker_def go_done_def)
next
  case (abort i t)
  show ?thesis unfolding abort(4)
    by (rule live_inv_update [OF inv, where i = i and w = "Exited None"])
      (simp_all add: set_worker_def)
next
  case (final i t req ch)
  show ?thesis unfolding final(5)
    by (rule live_inv_update [OF inv, where i = i and w = "Exited None"])
      (simp_all add: set_worker_def)
next
  case (take i t req ch)
  show ?thesis unfolding take(5)
    by (rule live_inv_update [OF inv, where i = i and w = "Handling t req"])
      (simp_all add: set_worker_def)
next
  case (recorded i t req stats)
  show ?thesis unfolding recorded(4)
    by (rule live_inv_update [OF inv, where i = i and w = "Responding t (do t req)"])
      (simp_all add: set_worker_def)
next
  case (sent i t resp rcv)
  show ?thesis unfolding sent(4)
    by (rule live_inv_update [OF inv, where i = i and w = "Serving t"])
      (simp_all add: set_worker_def next_position_send)
next
  case (blocked i t resp rcv)
  show ?thesis unfolding blocked(4)
    by (rule live_inv_update [OF inv, where i = i and w = "Sending t (next_position (out p))"])
      (simp_all add: set_worker_def next_position_send)
next
  case cancel
  show ?thesis unfolding cancel(2)
    by (rule live_inv_workers [OF inv]) simp_all
next
  case (consume r ch)
  show ?thesis unfolding consume(3)
    by (rule live_inv_workers [OF inv]) (simp_all add: next_position_recv [OF consume(2)])
qed

lemma live_run: "live_inv p \<Longrightarrow> live_inv (Serve_run nt do evs p)"
  by (rule Serve_run_invariant [where P = live_inv]) (simp_all add: live_step)

lemma live_start: "live_inv (Serve_start c ch)"
  by (simp add: live_inv_def Serve_start_def list_all_iff)

lemma at_select_nth:
  assumes "at_select p i = Some t"
  shows "i < length (workers p) \<and> active (workers p ! i)"
  using at_select_active [OF assms] worker_at_nth [of p i] by auto

lemma step_others:
  assumes "subject ev \<noteq> Some j"
  shows "workers (pool_step nt do ev p) ! j = workers p ! j"
proof (cases rule: pool_step_cases [of nt "do" ev p])
  case same
  then show ?thesis by simp
next
  case (built i t)
  show ?thesis unfolding built(4) using assms built(1) by (simp add: set_worker_def)
next
  case (failed i e)
  show ?thesis unfolding failed(4) using assms failed(1)
    by (simp add: set_worker_def go_done_def)
next
  case (abort i t)
  show ?thesis unfolding abort(4) using assms abort(1) by (simp add: set_worker_def)
next
  case (final i t req ch)
  show ?thesis unfolding final(5) using assms final(1) by (simp add: set_worker_def)
next
  case (take i t req ch)
  show ?thesis unfolding take(5) using assms take(1) by (simp add: set_worker_def)
next
  case (recorded i t req stats)
  show ?thesis unfolding recorded(4) using assms recorded(1) by (simp add: set_worker_def)
next
  case (sent i t resp rcv)
  show ?thesis unfolding sent(4) using assms sent(1) by (simp add: set_worker_def)
next
  case (blocked i t resp rcv)
  show ?thesis unfolding blocked(4) using assms blocked(1) by (simp add: set_worker_def)
next
  case cancel
  show ?thesis unfolding cancel(2) by simp
next
  case (consume r ch)
  show ?thesis unfolding consume(3) by simp
qed

lemma step_inactive:
  assumes "\<not> active (workers p ! j)"
  shows "workers (pool_step nt do ev p) ! j = workers p ! j"
proof (cases rule: pool_step_cases [of nt "do" ev p])
  case same
  then show ?thesis by simp
next
  case (built i t)
  have "j \<noteq> i" using worker_at_nth [OF built(2)] assms by auto
  then show ?thesis unfolding built(4) by (simp add: set_worker_def)
next
  case (failed i e)
  have "j \<noteq> i" using worker_at_nth [OF failed(2)] assms by auto
  then show ?thesis unfolding failed(4) by (simp add: set_worker_def go_done_def)
next
  case (abort i t)
  have "j \<noteq> i" using at_select_nth [OF abort(2)] assms by auto
  then show ?thesis unfolding abort(4) by (simp add: set_worker_def)
next
  case (final i t req ch)
  have "j \<noteq> i" using at_select_nth [OF final(2)] assms by auto
  then show ?thesis unfolding final(5) by (simp add: set_worker_def)
next
  case (take i t req ch)
  have "j \<noteq> i" using at_select_nth [OF take(2)] assms by auto
  then show ?thesis unfolding take(5) by (simp add: set_worker_def)
next
  case (recorded i t req stats)
  have "j \<noteq> i" using worker_at_nth [OF recorded(2)] assms by auto
  then show ?thesis unfolding recorded(4) by (simp add: set_worker_def)
next
  case (sent i t resp rcv)
  have "j \<noteq> i" using worker_at_nth [OF sent(2)] assms by auto
  then show ?thesis unfolding sent(4) by (simp add: set_worker_def)
next
  case (blocked i t resp rcv)
  have "j \<noteq> i" using worker_at_nth [OF blocked(2)] assms by auto
  then show ?thesis unfolding blocked(4) by (simp add: set_worker_def)
next
  case cancel
  show ?thesis unfolding cancel(2) by simp
next
  case (consume r ch)
  show ?thesis unfolding consume(3) by simp
qed

lemma nth_update_active:
  assumes "i < length ws" and "active (ws ! i) = active w"
  shows "active (ws[i := w] ! j) = active (ws ! j)"
  using assms by (cases "j = i") simp_all

lemma step_active:
  assumes nt: "nt (Endpoint (pclient p)) (Timeout (pclient p)) = Inr t"
    and ev: "\<forall>i. ev \<noteq> Receive i \<and> ev \<noteq> Abort i"
  shows "active (workers (pool_step nt do ev p) ! j) = active (workers p ! j)"
proof (cases rule: pool_step_cases [of nt "do" ev p])
  case same
  then show ?thesis by simp
next
  case (built i t)
  show ?thesis unfolding built(4) using worker_at_nth [OF built(2)]
    by (simp add: set_worker_def nth_update_active)
next
  case (failed i e)
  then show ?thesis using nt by simp
next
  case (abort i t)
  then show ?thesis using ev by simp
next
  case (final i t req ch)
  then show ?thesis using ev by simp
next
  case (take i t req ch)
  then show ?thesis using ev by simp
next
  case (recorded i t req stats)
  show ?thesis unfolding recorded(4) using worker_at_nth [OF recorded(2)]
    by (simp add: set_worker_def nth_update_active)
next
  case (sent i t resp rcv)
  show ?thesis unfolding sent(4) using worker_at_nth [OF sent(2)]
    by (simp add: set_worker_def nth_update_active)
next
  case (blocked i t resp rcv)
  show ?thesis unfolding blocked(4) using worker_at_nth [OF blocked(2)]
    by (simp add: set_worker_def nth_update_active)
next
  case cancel
  show ?thesis unfolding cancel(2) by simp
next
  case (consume r ch)
  show ?thesis unfolding consume(3) by simp
qed

lemma step_In:
  assumes "\<forall>i. ev \<noteq> Receive i"
  shows "In (pclient (pool_step nt do ev p)) = In (pclient p)"
proof (cases rule: pool_step_cases [of nt "do" ev p])
  case (final i t req ch)
  then show ?thesis using assms by simp
next
  case (take i t req ch)
  then show ?thesis using assms by simp
qed (simp_all add: set_worker_def go_done_def)

lemma step_ctx:
  assumes "nt (Endpoint (pclient p)) (Timeout (pclient p)) = Inr t" and "ev \<noteq> Cancel"
  shows "ctx_done (pool_step nt do ev p) = ctx_done p"
proof (cases rule: pool_step_cases [of nt "do" ev p])
  case (failed i e)
  then show ?thesis using assms by simp
next
  case cancel
  then show ?thesis using assms by simp
qed (simp_all add: set_worker_def)

lemma step_ctx_mono: "ctx_done p \<Longrightarrow> ctx_done (pool_step nt do ev p)"
  by (cases rule: pool_step_cases [of nt "do" ev p]) (simp_all add: set_worker_def go_done_def)

lemma step_out:
  assumes "\<forall>i rcv. ev \<noteq> Forward i rcv" and "ev \<noteq> Consume"
  shows "out (pool_step nt do ev p) = out p"
proof (cases rule: pool_step_cases [of nt "do" ev p])
  case (sent i t resp rcv)
  then show ?thesis using assms by simp
next
  case (blocked i t resp rcv)
  then show ?thesis using assms by simp
next
  case (consume r ch)
  then show ?thesis using assms by simp
qed (simp_all add: set_worker_def go_done_def)

lemma step_Forward_out:
  "length (pending (out (pool_step nt do (Forward i rcv) p))) \<le> Suc (length (pending (out p)))"
  by (cases rule: pool_step_cases [of nt "do" "Forward i rcv" p])
    (simp_all add: set_worker_def chan_send_def)

lemma step_In_length:
  "length (pending (In (pclient (pool_step nt do ev p)))) \<le> length (pending (In (pclient p)))"
proof (cases rule: pool_step_cases [of nt "do" ev p])
  case (final i t req ch)
  show ?thesis unfolding final(5) using chan_recv_Some [OF final(3)] by (simp add: set_worker_def)
next
  case (take i t req ch)
  show ?thesis unfolding take(5) using chan_recv_Some [OF take(3)] by (simp add: set_worker_def)
qed (simp_all add: set_worker_def go_done_def)

lemma Consume_many:
  "length (pending (out p)) \<le> m \<Longrightarrow>
     Serve_run nt do (replicate m Consume) p =
       p\<lparr>out := (out p)\<lparr>pending := [], taken := taken (out p) + length (pending (out p))\<rparr>,
         consumed := consumed p @ pending (out p)\<rparr>"
proof (induction m arbitrary: p)
  case 0
  then show ?case by (simp add: Serve_run_Nil)
next
  case (Suc m)
  show ?case
  proof (cases "pending (out p)")
    case Nil
    then have q: "pool_step nt do Consume p = p" by (simp add: chan_recv_def)
    have "length (pending (out p)) \<le> m" using Nil by simp
    from Suc.IH [OF this] show ?thesis using Nil
      by (simp del: pool_step.simps add: Serve_run_Cons q)
  next
    case (Cons r rs)
    let ?q = "p\<lparr>out := (out p)\<lparr>pending := rs, taken := Suc (taken (out p))\<rparr>,
      consumed := consumed p @ [r]\<rparr>"
    have q: "pool_step nt do Consume p = ?q" using Cons by (simp add: chan_recv_def)
    have "length (pending (out ?q)) \<le> m" using Suc.prems Cons by simp
    from Suc.IH [OF this] show ?thesis using Cons
      by (simp del: pool_step.simps add: Serve_run_Cons q)
  qed
qed

lemma settle_steps:
  fixes nt :: "string \<Rightarrow> int \<Rightarrow> go_error + 't"
  assumes nt: "nt (Endpoint (pclient p)) (Timeout (pclient p)) = Inr t"
    and i: "i < length (workers p)"
  shows "settled (workers (pool_step nt do (Forward i rcv)
           (pool_step nt do (Record i) (pool_step nt do (Init i) p))) ! i)"
proof (cases "workers p ! i")
  case Starting
  then show ?thesis using nt i by (simp add: worker_at_def set_worker_def)
next
  case (Serving t')
  then show ?thesis using i by (simp add: worker_at_def set_worker_def)
next
  case (Handling t' req)
  obtain stats where "Count (Err (do t' req)) (Elapsed (do t' req)) (Stats (pclient p)) = Return stats"
    using Count_returns by blast
  then show ?thesis using Handling i
    by (simp add: worker_at_def set_worker_def Let_def forward_def)
next
  case (Responding t' resp)
  then show ?thesis using i by (simp add: worker_at_def set_worker_def Let_def forward_def)
next
  case (Sending t' n)
  then show ?thesis using i by (simp add: worker_at_def set_worker_def)
next
  case (Exited r)
  then show ?thesis using i by (simp add: worker_at_def set_worker_def)
next
  case (Crashed pn)
  then show ?thesis using i by (simp add: worker_at_def set_worker_def)
qed

lemma settle_run:
  fixes nt :: "string \<Rightarrow> int \<Rightarrow> go_error + 't"
  assumes nt: "nt (Endpoint (pclient p)) (Timeout (pclient p)) = Inr t"
    and live: "live_inv p" and i: "i < length (workers p)"
    and m: "length (pending (out p)) < m"
    and p': "p' = Serve_run nt do (settle m i) p"
  shows "live_inv p'" and "pending (out p') = []" and "In (pclient p') = In (pclient p)"
    and "ctx_done p' = ctx_done p"
    and "\<And>j. j \<noteq> i \<Longrightarrow> workers p' ! j = workers p ! j"
    and "\<not> active (workers p ! i) \<Longrightarrow> workers p' ! i = workers p ! i"
    and "active (workers p' ! i) = active (workers p ! i)"
    and "active (workers p ! i) \<Longrightarrow> \<exists>t'. at_select p' i = Some t'"
proof -
  let ?p1 = "pool_step nt do (Init i) p"
  let ?p2 = "pool_step nt do (Record i) ?p1"
  let ?p3 = "pool_step nt do (Forward i False) ?p2"
  have run: "p' = Serve_run nt do (replicate m Consume) ?p3"
    unfolding p' settle_def Serve_run_def by (simp del: pool_step.simps)
  have nt1: "nt (Endpoint (pclient ?p1)) (Timeout (pclient ?p1)) = Inr t"
    using nt by (simp only: pool_step_endpoint)
  have nt2: "nt (Endpoint (pclient ?p2)) (Timeout (pclient ?p2)) = Inr t"
    using nt by (simp only: pool_step_endpoint)
  have out2: "out ?p2 = out p" by (simp only: step_out event.distinct simp_thms)
  have len3: "length (pending (out ?p3)) \<le> m"
    using step_Forward_out [of nt "do" i False ?p2] m unfolding out2 by simp
  have q: "p' = ?p3\<lparr>out := (out ?p3)\<lparr>pending := [],
      taken := taken (out ?p3) + length (pending (out ?p3))\<rparr>,
      consumed := consumed ?p3 @ pending (out ?p3)\<rparr>"
    unfolding run by (rule Consume_many [OF len3])
  have w: "workers p' = workers ?p3" by (subst q) simp
  have live3: "live_inv ?p3" by (intro live_step live)
  have i3: "i < length (workers ?p3)" using i by (simp only: pool_step_length)
  show "live_inv p'" unfolding p' by (rule live_run [OF live])
  show "pending (out p') = []" by (subst q) simp
  have "In (pclient p') = In (pclient ?p3)" by (subst q) simp
  then show "In (pclient p') = In (pclient p)" by (simp only: step_In event.distinct simp_thms)
  have "ctx_done p' = ctx_done ?p3" by (subst q) simp
  also have "\<dots> = ctx_done ?p2" using nt2 by (rule step_ctx) simp
  also have "\<dots> = ctx_done ?p1" using nt1 by (rule step_ctx) simp
  also have "\<dots> = ctx_done p" using nt by (rule step_ctx) simp
  finally show "ctx_done p' = ctx_done p" .
  show "workers p' ! j = workers p ! j" if "j \<noteq> i" for j
    unfolding w using that by (simp add: step_others del: pool_step.simps)
  have act1: "active (workers ?p1 ! i) = active (workers p ! i)"
    using nt by (rule step_active) simp
  have act2: "active (workers ?p2 ! i) = active (workers ?p1 ! i)"
    using nt1 by (rule step_active) simp
  have act3: "active (workers ?p3 ! i) = active (workers ?p2 ! i)"
    using nt2 by (rule step_active) simp
  show act: "active (workers p' ! i) = active (workers p ! i)"
    unfolding w using act1 act2 act3 by simp
  show "workers p' ! i = workers p ! i" if "\<not> active (workers p ! i)"
  proof -
    have "workers ?p1 ! i = workers p ! i" using that by (rule step_inactive)
    moreover have "workers ?p2 ! i = workers ?p1 ! i"
      using that act1 by (intro step_inactive) simp
    moreover have "workers ?p3 ! i = workers ?p2 ! i"
      using that act1 act2 by (intro step_inactive) simp
    ultimately show ?thesis unfolding w by simp
  qed
  show "\<exists>t'. at_select p' i = Some t'" if a: "active (workers p ! i)"
  proof -
    have s: "settled (workers ?p3 ! i)" using nt i by (rule settle_steps)
    have a3: "active (workers ?p3 ! i)" using act a unfolding w by simp
    have t3: "ticket_ok (next_position (out ?p3)) (workers ?p3 ! i)"
      using live3 i3 unfolding live_inv_def list_all_length by blast
    have wa: "worker_at p' i = Some (workers ?p3 ! i)"
      using i3 by (simp add: worker_at_def w del: pool_step.simps)
    have o: "taken (out p') = next_position (out ?p3)" "cap (out p') = cap (out ?p3)"
      by (subst q, simp add: next_position_def)+
    show ?thesis
    proof (cases "workers ?p3 ! i")
      case (Serving t')
      then show ?thesis using wa by (simp add: at_select_def del: pool_step.simps)
    next
      case (Sending t' n)
      then have "n < next_position (out ?p3)" using t3 by simp
      then have "\<not> send_blocked n (out p')" by (simp add: send_blocked_def o)
      then show ?thesis using wa Sending by (simp add: at_select_def del: pool_step.simps)
    qed (use s a3 in simp_all)
  qed
qed

lemma inv_built_run:
  fixes nt :: "string \<Rightarrow> int \<Rightarrow> go_error + 't"
  assumes "nt (Endpoint (pclient p)) (Timeout (pclient p)) = Inr t" and "inv_built p"
  shows "inv_built (Serve_run nt do evs p)"
proof -
  let ?P = "\<lambda>q. nt (Endpoint (pclient q)) (Timeout (pclient q)) = Inr t \<and> inv_built q"
  have "?P (Serve_run nt do evs p)"
  proof (rule Serve_run_invariant [where P = ?P])
    show "?P p" using assms by simp
  next
    fix ev and q :: "'t pool" assume "?P q"
    then show "?P (pool_step nt do ev q)"
      using inv_built_step [of nt q t "do" ev] by (simp add: pool_step_endpoint)
  qed
  then show ?thesis by simp
qed

lemma run_inactive:
  "\<not> active (workers p ! j) \<Longrightarrow> workers (Serve_run nt do evs p) ! j = workers p ! j"
proof (induction evs arbitrary: p)
  case Nil
  then show ?case by (simp add: Serve_run_Nil)
next
  case (Cons ev evs)
  have s: "workers (pool_step nt do ev p) ! j = workers p ! j"
    using Cons.prems by (rule step_inactive)
  then have "\<not> active (workers (pool_step nt do ev p) ! j)" using Cons.prems by simp
  from Cons.IH [OF this] show ?case unfolding Serve_run_Cons s .
qed

lemma inactive_exited: "\<not> active w \<Longrightarrow> ticket_ok np w \<Longrightarrow> is_exited w"
  by (cases w) simp_all

lemma active_count_zero: "(length (filter active ws) = 0) = (\<forall>j<length ws. \<not> active (ws ! j))"
  by (simp add: filter_empty_conv all_set_conv_all_nth)

lemma active_count_pos: "i < length ws \<Longrightarrow> active (ws ! i) \<Longrightarrow> 0 < length (filter active ws)"
  using active_count_zero [of ws] by auto

lemma concat_replicate_Suc: "concat (replicate (Suc n) xs) = concat (replicate n xs) @ xs"
  by (induction n) simp_all

lemma turn_abort:
  fixes nt :: "string \<Rightarrow> int \<Rightarrow> go_error + 't"
  assumes nt: "nt (Endpoint (pclient p)) (Timeout (pclient p)) = Inr t"
    and live: "live_inv p" and i: "i < length (workers p)"
    and m: "length (pending (out p)) < m" and ctx: "ctx_done p"
    and p'': "p'' = Serve_run nt do (settle m i @ [Abort i]) p"
  shows "live_inv p''" and "ctx_done p''" and "pending (out p'') = []"
    and "\<And>j. j \<noteq> i \<Longrightarrow> workers p'' ! j = workers p ! j"
    and "\<not> active (workers p'' ! i)"
proof -
  let ?p' = "Serve_run nt do (settle m i) p"
  note s = settle_run [where p' = "Serve_run nt do (settle m i) p", OF nt live i m refl]
  have run: "p'' = pool_step nt do (Abort i) ?p'"
    unfolding p'' Serve_run_append Serve_run_Cons Serve_run_Nil ..
  have ctx': "ctx_done ?p'" using s(4) ctx by simp
  show "live_inv p''" unfolding p'' by (rule live_run [OF live])
  show "ctx_done p''" unfolding run using ctx' by (rule step_ctx_mono)
  have "out p'' = out ?p'" unfolding run by (rule step_out) simp_all
  then show "pending (out p'') = []" using s(2) by simp
  show "workers p'' ! j = workers p ! j" if "j \<noteq> i" for j
  proof -
    have "workers p'' ! j = workers ?p' ! j" unfolding run using that by (intro step_others) simp
    then show ?thesis using s(5) [OF that] by simp
  qed
  show "\<not> active (workers p'' ! i)"
  proof (cases "active (workers p ! i)")
    case True
    then obtain t' where sel: "at_select ?p' i = Some t'" using s(8) by blast
    have i': "i < length (workers ?p')" using i by (simp only: Serve_run_length)
    have "p'' = set_worker i (Exited None) (?p'\<lparr>logs := logs ?p' @ [msg_aborting]\<rparr>)"
      unfolding run using sel ctx' by (simp add: go_done_None)
    then have "workers p'' ! i = Exited None" using i' by (simp add: set_worker_def)
    then show ?thesis by simp
  next
    case False
    then have "\<not> active (workers ?p' ! i)" using s(7) by simp
    then have "workers p'' ! i = workers ?p' ! i" unfolding run by (rule step_inactive)
    then show ?thesis using False s(7) by simp
  qed
qed

lemma cancel_turns:
  fixes nt :: "string \<Rightarrow> int \<Rightarrow> go_error + 't"
  assumes nt: "nt (Endpoint (pclient p)) (Timeout (pclient p)) = Inr t"
    and live: "live_inv p" and ctx: "ctx_done p"
    and m: "length (pending (out p)) < m"
  shows "n \<le> length (workers p) \<Longrightarrow>
    live_inv (Serve_run nt do (concat (map (\<lambda>i. settle m i @ [Abort i]) [0..<n])) p) \<and>
    ctx_done (Serve_run nt do (concat (map (\<lambda>i. settle m i @ [Abort i]) [0..<n])) p) \<and>
    length (pending (out (Serve_run nt do (concat (map (\<lambda>i. settle m i @ [Abort i]) [0..<n])) p))) < m \<and>
    (\<forall>j<n. \<not> active (workers (Serve_run nt do
       (concat (map (\<lambda>i. settle m i @ [Abort i]) [0..<n])) p) ! j))"
proof (induction n)
  case 0
  then show ?case using live ctx m by (simp add: Serve_run_Nil)
next
  case (Suc n)
  let ?s = "Serve_run nt do (concat (map (\<lambda>i. settle m i @ [Abort i]) [0..<n])) p"
  let ?s' = "Serve_run nt do (settle m n @ [Abort n]) ?s"
  have run: "Serve_run nt do (concat (map (\<lambda>i. settle m i @ [Abort i]) [0..<Suc n])) p = ?s'"
    by (simp add: Serve_run_append del: pool_step.simps)
  have ih: "live_inv ?s" "ctx_done ?s" "length (pending (out ?s)) < m"
    "\<forall>j<n. \<not> active (workers ?s ! j)"
    using Suc by simp_all
  have nts: "nt (Endpoint (pclient ?s)) (Timeout (pclient ?s)) = Inr t"
    using nt by (simp only: Serve_run_endpoint)
  have n: "n < length (workers ?s)" using Suc.prems by (simp only: Serve_run_length)
  note t = turn_abort [where p'' = "?s'", OF nts ih(1) n ih(3) ih(2) refl]
  have "\<not> active (workers ?s' ! j)" if "j < Suc n" for j
  proof (cases "j = n")
    case True
    then show ?thesis using t(5) by simp
  next
    case False
    then have "j < n" using that by simp
    then show ?thesis using ih(4) t(4) [OF False] by simp
  qed
  moreover have "length (pending (out ?s')) < m" using t(3) m by simp
  ultimately show ?case unfolding run using t(1) t(2) by blast
qed

lemma cancel_run_returns:
  fixes nt :: "string \<Rightarrow> int \<Rightarrow> go_error + 't"
  assumes nt: "nt (Endpoint (pclient p)) (Timeout (pclient p)) = Inr t"
    and live: "live_inv p" and built: "inv_built p"
    and m: "length (pending (out p)) < m"
  shows "Wait (Serve_run nt do (cancel_run (length (workers p)) m) p) = Some None"
proof -
  let ?k = "length (workers p)"
  let ?pc = "p\<lparr>ctx_done := True\<rparr>"
  let ?s = "Serve_run nt do (concat (map (\<lambda>i. settle m i @ [Abort i]) [0..<?k])) ?pc"
  have run: "Serve_run nt do (cancel_run ?k m) p = ?s"
    by (simp add: cancel_run_def Serve_run_Cons)
  have live': "live_inv ?pc" using live by (rule live_inv_workers) simp_all
  have c: "live_inv ?s \<and> ctx_done ?s \<and> length (pending (out ?s)) < m \<and>
      (\<forall>j<?k. \<not> active (workers ?s ! j))"
    using cancel_turns [of nt ?pc t m ?k "do"] nt live' m by simp
  have len: "length (workers ?s) = ?k" by (simp add: Serve_run_length)
  have "is_exited (workers ?s ! j)" if "j < length (workers ?s)" for j
  proof -
    have "ticket_ok (next_position (out ?s)) (workers ?s ! j)"
      using c that unfolding live_inv_def list_all_length by blast
    moreover have "\<not> active (workers ?s ! j)" using c that len by simp
    ultimately show ?thesis using inactive_exited by blast
  qed
  then have all: "list_all is_exited (workers ?s)" unfolding list_all_length by blast
  have "inv_built ?pc" using built by (simp add: inv_built_def)
  then have "inv_built ?s" using nt by (intro inv_built_run [where t = t]) simp_all
  then have "group_err ?s = None" by (simp add: inv_built_def)
  then show ?thesis unfolding run using all by (simp add: Wait_def)
qed

lemma settle_no_Cancel: "Cancel \<notin> set (settle m i @ [Receive i])"
  by (auto simp: settle_def)

lemma shutdown_queue:
  assumes sd: "shutdown_inv M p" and kM: "length (workers p) \<le> M"
  shows "length (filter active (workers p)) \<le> finals (pending (In (pclient p)))"
  using assms by (simp add: shutdown_inv_def)

lemma finals_length: "finals q \<le> length q"
  by (simp add: finals_def)

lemma turn_receive:
  fixes nt :: "string \<Rightarrow> int \<Rightarrow> go_error + 't"
  assumes nt: "nt (Endpoint (pclient p)) (Timeout (pclient p)) = Inr t"
    and live: "live_inv p" and sd: "shutdown_inv M p" and kM: "length (workers p) \<le> M"
    and i: "i < length (workers p)" and m: "length (pending (out p)) < m"
    and p'': "p'' = Serve_run nt do (settle m i @ [Receive i]) p"
  shows "live_inv p''" and "shutdown_inv M p''" and "pending (out p'') = []"
    and "\<And>j. j \<noteq> i \<Longrightarrow> workers p'' ! j = workers p ! j"
    and "length (pending (In (pclient p''))) \<le> length (pending (In (pclient p)))"
    and "active (workers p ! i) \<Longrightarrow>
           length (pending (In (pclient p''))) < length (pending (In (pclient p)))"
proof -
  let ?p' = "Serve_run nt do (settle m i) p"
  note s = settle_run [where p' = ?p', OF nt live i m refl]
  have run: "p'' = pool_step nt do (Receive i) ?p'"
    unfolding p'' Serve_run_append Serve_run_Cons Serve_run_Nil ..
  have nc: "Cancel \<notin> set (settle m i)" by (auto simp: settle_def)
  have sd': "shutdown_inv M ?p'" using nt nc sd by (rule shutdown_run)
  have len': "length (workers ?p') = length (workers p)" by (simp only: Serve_run_length)
  show "live_inv p''" unfolding p'' by (rule live_run [OF live])
  show "shutdown_inv M p''" unfolding p'' using nt settle_no_Cancel sd by (rule shutdown_run)
  have "out p'' = out ?p'" unfolding run by (rule step_out) simp_all
  then show "pending (out p'') = []" using s(2) by simp
  show "workers p'' ! j = workers p ! j" if "j \<noteq> i" for j
  proof -
    have "workers p'' ! j = workers ?p' ! j" unfolding run using that by (intro step_others) simp
    then show ?thesis using s(5) [OF that] by simp
  qed
  show "length (pending (In (pclient p''))) \<le> length (pending (In (pclient p)))"
    unfolding run using step_In_length [of nt "do" "Receive i" ?p'] s(3) by simp
  show "length (pending (In (pclient p''))) < length (pending (In (pclient p)))"
    if a: "active (workers p ! i)"
  proof -
    obtain t' where sel: "at_select ?p' i = Some t'" using s(8) [OF a] by blast
    have "active (workers ?p' ! i)" using s(7) a by simp
    then have pos: "0 < length (filter active (workers ?p'))"
      using i len' by (intro active_count_pos [of i]) simp_all
    have "length (workers ?p') \<le> M" using kM len' by simp
    then have "length (filter active (workers ?p')) \<le> finals (pending (In (pclient ?p')))"
      by (rule shutdown_queue [OF sd'])
    with pos have "0 < finals (pending (In (pclient ?p')))" by linarith
    then have ne: "pending (In (pclient p)) \<noteq> []"
      using s(3) by (auto simp: finals_def)
    then obtain req rs where q: "pending (In (pclient p)) = req # rs"
      by (cases "pending (In (pclient p))") auto
    let ?ch = "(In (pclient p))\<lparr>pending := rs, taken := Suc (taken (In (pclient p)))\<rparr>"
    have rc: "chan_recv (In (pclient ?p')) = Some (req, ?ch)"
      using q s(3) by (simp add: chan_recv_def)
    have "In (pclient p'') = ?ch"
      unfolding run using sel rc by (simp add: Let_def go_done_None set_worker_def)
    then show ?thesis using q by simp
  qed
qed

lemma drain_turns:
  fixes nt :: "string \<Rightarrow> int \<Rightarrow> go_error + 't"
  assumes nt: "nt (Endpoint (pclient p)) (Timeout (pclient p)) = Inr t"
    and live: "live_inv p" and sd: "shutdown_inv M p" and kM: "length (workers p) \<le> M"
    and m: "length (pending (out p)) < m"
  shows "n \<le> length (workers p) \<Longrightarrow>
    live_inv (Serve_run nt do (concat (map (\<lambda>i. settle m i @ [Receive i]) [0..<n])) p) \<and>
    shutdown_inv M (Serve_run nt do (concat (map (\<lambda>i. settle m i @ [Receive i]) [0..<n])) p) \<and>
    length (pending (out (Serve_run nt do
       (concat (map (\<lambda>i. settle m i @ [Receive i]) [0..<n])) p))) < m \<and>
    (\<forall>j\<ge>n. workers (Serve_run nt do
       (concat (map (\<lambda>i. settle m i @ [Receive i]) [0..<n])) p) ! j = workers p ! j) \<and>
    length (pending (In (pclient (Serve_run nt do
       (concat (map (\<lambda>i. settle m i @ [Receive i]) [0..<n])) p)))) \<le>
      length (pending (In (pclient p))) \<and>
    ((\<exists>j<n. active (workers p ! j)) \<longrightarrow>
       length (pending (In (pclient (Serve_run nt do
         (concat (map (\<lambda>i. settle m i @ [Receive i]) [0..<n])) p)))) <
       length (pending (In (pclient p))))"
proof (induction n)
  case 0
  then show ?case using live sd m by (simp add: Serve_run_Nil)
next
  case (Suc n)
  let ?s = "Serve_run nt do (concat (map (\<lambda>i. settle m i @ [Receive i]) [0..<n])) p"
  let ?s' = "Serve_run nt do (settle m n @ [Receive n]) ?s"
  have run: "Serve_run nt do (concat (map (\<lambda>i. settle m i @ [Receive i]) [0..<Suc n])) p = ?s'"
    by (simp add: Serve_run_append del: pool_step.simps)
  have ih: "live_inv ?s" "shutdown_inv M ?s" "length (pending (out ?s)) < m"
    "\<forall>j\<ge>n. workers ?s ! j = workers p ! j"
    "length (pending (In (pclient ?s))) \<le> length (pending (In (pclient p)))"
    "(\<exists>j<n. active (workers p ! j)) \<longrightarrow>
       length (pending (In (pclient ?s))) < length (pending (In (pclient p)))"
    using Suc by simp_all
  have nts: "nt (Endpoint (pclient ?s)) (Timeout (pclient ?s)) = Inr t"
    using nt by (simp only: Serve_run_endpoint)
  have len: "length (workers ?s) = length (workers p)" by (simp only: Serve_run_length)
  have n: "n < length (workers ?s)" using Suc.prems len by simp
  have kM': "length (workers ?s) \<le> M" using kM len by simp
  note t = turn_receive [where p'' = ?s', OF nts ih(1) ih(2) kM' n ih(3) refl]
  have others: "\<forall>j\<ge>Suc n. workers ?s' ! j = workers p ! j"
    using t(4) ih(4) by simp
  have le: "length (pending (In (pclient ?s'))) \<le> length (pending (In (pclient p)))"
    using t(5) ih(5) by simp
  have less: "length (pending (In (pclient ?s'))) < length (pending (In (pclient p)))"
    if "\<exists>j<Suc n. active (workers p ! j)"
  proof (cases "\<exists>j<n. active (workers p ! j)")
    case True
    then show ?thesis using ih(6) t(5) by simp
  next
    case False
    then have "active (workers p ! n)" using that less_Suc_eq by auto
    then have "active (workers ?s ! n)" using ih(4) by simp
    then show ?thesis using t(6) ih(5) by simp
  qed
  have "length (pending (out ?s')) < m" using t(3) m by simp
  then show ?case unfolding run using t(1) t(2) others le less by blast
qed

lemma drain_round_progress:
  fixes nt :: "string \<Rightarrow> int \<Rightarrow> go_error + 't"
  assumes nt: "nt (Endpoint (pclient p)) (Timeout (pclient p)) = Inr t"
    and live: "live_inv p" and sd: "shutdown_inv M p" and kM: "length (workers p) \<le> M"
    and m: "length (pending (out p)) < m"
    and s: "s = Serve_run nt do (drain_round (length (workers p)) m) p"
  shows "live_inv s" and "shutdown_inv M s" and "length (pending (out s)) < m"
    and "length (pending (In (pclient s))) \<le> length (pending (In (pclient p)))"
    and "0 < length (filter active (workers p)) \<Longrightarrow>
           length (pending (In (pclient s))) < length (pending (In (pclient p)))"
proof -
  note d = drain_turns [of nt p t M m "length (workers p)" "do", OF nt live sd kM m le_refl,
      folded drain_round_def s]
  show "live_inv s" "shutdown_inv M s" "length (pending (out s)) < m"
    "length (pending (In (pclient s))) \<le> length (pending (In (pclient p)))"
    using d by simp_all
  show "length (pending (In (pclient s))) < length (pending (In (pclient p)))"
    if "0 < length (filter active (workers p))"
  proof -
    have "\<exists>j<length (workers p). active (workers p ! j)"
      using that active_count_zero [of "workers p"] by auto
    then show ?thesis using d by simp
  qed
qed

lemma drain_rounds:
  fixes nt :: "string \<Rightarrow> int \<Rightarrow> go_error + 't"
  assumes nt: "nt (Endpoint (pclient p)) (Timeout (pclient p)) = Inr t"
    and live: "live_inv p" and sd: "shutdown_inv M p" and kM: "length (workers p) \<le> M"
    and m: "length (pending (out p)) < m"
  shows
    "live_inv (Serve_run nt do (drain_run (length (workers p)) m n) p) \<and>
     shutdown_inv M (Serve_run nt do (drain_run (length (workers p)) m n) p) \<and>
     length (pending (out (Serve_run nt do (drain_run (length (workers p)) m n) p))) < m \<and>
     (length (filter active (workers (Serve_run nt do (drain_run (length (workers p)) m n) p))) = 0 \<or>
      length (pending (In (pclient (Serve_run nt do (drain_run (length (workers p)) m n) p)))) + n
        \<le> length (pending (In (pclient p))))"
proof (induction n)
  case 0
  then show ?case using live sd m by (simp add: drain_run_def Serve_run_Nil)
next
  case (Suc n)
  let ?k = "length (workers p)"
  let ?s = "Serve_run nt do (drain_run ?k m n) p"
  let ?s' = "Serve_run nt do (drain_round ?k m) ?s"
  have run: "Serve_run nt do (drain_run ?k m (Suc n)) p = ?s'"
    unfolding drain_run_def concat_replicate_Suc Serve_run_append ..
  have ih: "live_inv ?s" "shutdown_inv M ?s" "length (pending (out ?s)) < m"
    "length (filter active (workers ?s)) = 0 \<or>
     length (pending (In (pclient ?s))) + n \<le> length (pending (In (pclient p)))"
    using Suc by simp_all
  have nts: "nt (Endpoint (pclient ?s)) (Timeout (pclient ?s)) = Inr t"
    using nt by (simp only: Serve_run_endpoint)
  have len: "length (workers ?s) = ?k" by (simp only: Serve_run_length)
  have len': "length (workers ?s') = ?k" by (simp only: Serve_run_length)
  have kM': "length (workers ?s) \<le> M" using kM len by simp
  have s': "?s' = Serve_run nt do (drain_round (length (workers ?s)) m) ?s"
    unfolding len ..
  note r = drain_round_progress [OF nts ih(1) ih(2) kM' ih(3) s']
  have "length (filter active (workers ?s')) = 0 \<or>
     length (pending (In (pclient ?s'))) + Suc n \<le> length (pending (In (pclient p)))"
  proof (cases "length (filter active (workers ?s)) = 0")
    case True
    then have "\<forall>j<?k. \<not> active (workers ?s ! j)"
      using active_count_zero [of "workers ?s"] len by simp
    then have "\<forall>j<?k. \<not> active (workers ?s' ! j)"
      using run_inactive [of ?s _ nt "do" "drain_round ?k m"] by simp
    then show ?thesis using active_count_zero [of "workers ?s'"] len' by simp
  next
    case False
    then have "length (pending (In (pclient ?s'))) < length (pending (In (pclient ?s)))"
      using r(5) by simp
    then show ?thesis using ih(4) False by simp
  qed
  then show ?case unfolding run using r(1) r(2) r(3) by blast
qed

lemma drain_run_returns:
  fixes nt :: "string \<Rightarrow> int \<Rightarrow> go_error + 't"
  assumes nt: "nt (Endpoint (pclient p)) (Timeout (pclient p)) = Inr t"
    and live: "live_inv p" and sd: "shutdown_inv M p" and kM: "length (workers p) \<le> M"
    and m: "length (pending (out p)) < m"
    and n: "length (pending (In (pclient p))) \<le> n"
  shows "Wait (Serve_run nt do (drain_run (length (workers p)) m n) p) = Some None"
proof -
  let ?s = "Serve_run nt do (drain_run (length (workers p)) m n) p"
  note d = drain_rounds [of nt p t M m "do" n, OF nt live sd kM m]
  have sd': "shutdown_inv M ?s" using d by simp
  have len: "length (workers ?s) = length (workers p)" by (simp only: Serve_run_length)
  have z: "length (filter active (workers ?s)) = 0"
  proof (cases "length (filter active (workers ?s)) = 0")
    case False
    then have "length (pending (In (pclient ?s))) + n \<le> length (pending (In (pclient p)))"
      using d by blast
    then have "length (pending (In (pclient ?s))) = 0" using n by linarith
    then have f: "finals (pending (In (pclient ?s))) = 0" by (simp add: finals_def)
    have "length (workers ?s) \<le> M" using kM len by simp
    then have "length (filter active (workers ?s)) \<le> finals (pending (In (pclient ?s)))"
      by (rule shutdown_queue [OF sd'])
    then show ?thesis unfolding f by linarith
  qed
  have "list_all (\<lambda>w. w = Exited None) (workers ?s)"
    using sd' z by (intro filter_active_all) (simp_all add: shutdown_inv_def)
  then have "list_all is_exited (workers ?s)" by (rule is_exited_all)
  then show ?thesis using sd' by (simp add: Wait_def shutdown_inv_def)
qed

lemma failed_Init:
  fixes nt :: "string \<Rightarrow> int \<Rightarrow> go_error + 't"
  assumes nt: "nt (Endpoint c) (Timeout c) = Inl e"
  shows "Init i \<in> set evs \<Longrightarrow> i < nat (max 1 (Concurrency c)) \<Longrightarrow>
     workers (Serve_run nt do evs (Serve_start c ch)) ! i = Exited (Some e)"
proof (induction evs rule: rev_induct)
  case Nil
  then show ?case by simp
next
  case (snoc ev evs)
  let ?q = "Serve_run nt do evs (Serve_start c ch)"
  have run: "Serve_run nt do (evs @ [ev]) (Serve_start c ch) = pool_step nt do ev ?q"
    unfolding Serve_run_append Serve_run_Cons Serve_run_Nil ..
  have i: "i < length (workers ?q)"
    using snoc.prems(2) by (simp add: Serve_run_length workers_Serve_start)
  have inv: "inv_failed e ?q" using nt by (rule Serve_run_failed)
  have ntq: "nt (Endpoint (pclient ?q)) (Timeout (pclient ?q)) = Inl e"
    using nt by (simp only: Serve_run_endpoint Serve_start_endpoint)
  have w: "workers ?q ! i = Starting \<or> workers ?q ! i = Exited (Some e)"
    using inv i by (simp add: inv_failed_def)
  show ?case
  proof (cases "workers ?q ! i = Exited (Some e)")
    case True
    then have "\<not> active (workers ?q ! i)" by simp
    then have "workers (pool_step nt do ev ?q) ! i = workers ?q ! i" by (rule step_inactive)
    then show ?thesis unfolding run using True by simp
  next
    case False
    then have st: "workers ?q ! i = Starting" using w by simp
    have "Init i \<notin> set evs" using snoc.IH snoc.prems(2) False by blast
    then have ev: "ev = Init i" using snoc.prems(1) by simp
    have "pool_step nt do ev ?q = go_done (Some e) (set_worker i (Exited (Some e)) ?q)"
      unfolding ev using st i ntq by (simp add: worker_at_def)
    then show ?thesis unfolding run using i by (simp add: go_done_def set_worker_def)
  qed
qed

lemma failed_returns:
  fixes nt :: "string \<Rightarrow> int \<Rightarrow> go_error + 't"
  assumes nt: "nt (Endpoint c) (Timeout c) = Inl e"
    and all: "\<forall>i<nat (max 1 (Concurrency c)). Init i \<in> set evs"
  shows "Wait (Serve_run nt do evs (Serve_start c ch)) = Some (Some e)"
proof -
  let ?q = "Serve_run nt do evs (Serve_start c ch)"
  have len: "length (workers ?q) = nat (max 1 (Concurrency c))"
    by (simp add: Serve_run_length workers_Serve_start)
  have "workers ?q ! i = Exited (Some e)" if "i < length (workers ?q)" for i
    using failed_Init [of nt c e i evs "do" ch, OF nt] all that len by simp
  then have "list_all is_exited (workers ?q)" unfolding list_all_length by simp
  then obtain r where r: "Wait ?q = Some r" by (simp add: Wait_def)
  then show ?thesis using Wait_result [OF r] nt by simp
qed

text \<open>
  \<open>Finalize\<close> after \<open>Serve\<close> has started the pool, or on a client with a concurrency of at
  least 1: it puts one sentinel for each worker on the queue, the workers that have not
  returned are then as many as the sentinels in the queue, and the workers taking their
  turns at the queue bring \<open>Serve\<close> to return nil.
\<close>

lemma Finalize_sentinels:
  fixes nt :: "string \<Rightarrow> int \<Rightarrow> go_error + 't"
  assumes tr: "nt (Endpoint c) (Timeout c) = Inr t"
    and real: "finals (pending (In c)) = 0"
    and nc: "Cancel \<notin> set evs1" "Cancel \<notin> set evs2"
    and j: "j < length cs"
    and order:
      "(cs ! j = pclient (Serve_run nt do evs1 (Serve_start c ch)) \<and>
        p2 = (Serve_run nt do evs1 (Serve_start c ch))\<lparr>pclient := Finalize cs ! j\<rparr>) \<or>
       (1 \<le> Concurrency c \<and> cs ! j = c \<and> p2 = Serve_start (Finalize cs ! j) ch)"
    and p3: "p3 = Serve_run nt do evs2 p2"
  shows "pending (In (Finalize cs ! j)) =
           pending (In (cs ! j)) @ replicate (nat (max 1 (Concurrency c))) final_request \<and>
         length (workers p3) = nat (max 1 (Concurrency c)) \<and>
         length (filter active (workers p3)) = finals (pending (In (pclient p3))) \<and>
         (pending (In (pclient p3)) = [] \<longrightarrow>
            list_all (\<lambda>w. w = Exited None) (workers p3) \<and>
            count_list (logs p3) msg_final = length (workers p3) \<and>
            Wait p3 = Some None) \<and>
         Wait (Serve_run nt do
                 (drain_run (nat (max 1 (Concurrency c))) (Suc (length (pending (out p3))))
                    (length (pending (In (pclient p3))))) p3) = Some None"
proof -
  let ?k = "nat (max 1 (Concurrency c))"
  let ?p1 = "Serve_run nt do evs1 (Serve_start c ch)"
  have live1: "live_inv ?p1" by (intro live_run live_start)
  have live2: "live_inv p2"
    using order
  proof
    assume "cs ! j = pclient ?p1 \<and> p2 = ?p1\<lparr>pclient := Finalize cs ! j\<rparr>"
    then show ?thesis using live1 by (elim live_inv_workers) simp_all
  next
    assume "1 \<le> Concurrency c \<and> cs ! j = c \<and> p2 = Serve_start (Finalize cs ! j) ch"
    then show ?thesis by (simp add: live_start)
  qed
  have facts: "pending (In (Finalize cs ! j)) = pending (In (cs ! j)) @ replicate ?k final_request \<and>
      length (workers p2) = ?k \<and> shutdown_inv ?k p2 \<and>
      nt (Endpoint (pclient p2)) (Timeout (pclient p2)) = Inr t"
    using order
  proof
    assume a: "cs ! j = pclient ?p1 \<and> p2 = ?p1\<lparr>pclient := Finalize cs ! j\<rparr>"
    have ep: "nt (Endpoint (pclient (Serve_start c ch))) (Timeout (pclient (Serve_start c ch))) = Inr t"
      using tr by (simp add: Serve_start_endpoint)
    have k: "length (workers ?p1) = ?k"
      by (simp add: Serve_run_length workers_Serve_start)
    have conc: "Concurrency (pclient ?p1) = max 1 (Concurrency c)"
      by (simp add: Serve_run_Concurrency) (simp add: Serve_start_def coerce_Concurrency)
    have fin: "Finalize cs ! j = (pclient ?p1)\<lparr>In := (In (pclient ?p1))\<lparr>pending :=
        pending (In (pclient ?p1)) @ replicate ?k final_request\<rparr>\<rparr>"
      using Finalize_nth [OF j] a conc by simp
    have inv1: "shutdown_inv 0 ?p1"
      using ep nc(1) shutdown_start [OF real] by (rule shutdown_run)
    have inv2: "shutdown_inv ?k p2"
      using inv1 k a by (simp add: shutdown_inv_def fin finals_append finals_replicate)
    have ep2: "nt (Endpoint (pclient p2)) (Timeout (pclient p2)) = Inr t"
      using tr a by (simp add: fin Serve_run_endpoint Serve_start_endpoint)
    show ?thesis using a fin k inv2 ep2 by simp
  next
    assume b: "1 \<le> Concurrency c \<and> cs ! j = c \<and> p2 = Serve_start (Finalize cs ! j) ch"
    have fin: "Finalize cs ! j = c\<lparr>In := (In c)\<lparr>pending :=
        pending (In c) @ replicate (nat (Concurrency c)) final_request\<rparr>\<rparr>"
      using Finalize_nth [OF j] b by simp
    have k: "?k = nat (Concurrency c)" using b by simp
    have inv2: "shutdown_inv ?k p2"
      unfolding k using b real j shutdown_finalized_first [of c j cs ch] by simp
    have ep2: "nt (Endpoint (pclient p2)) (Timeout (pclient p2)) = Inr t"
      using tr b by (simp add: Serve_start_endpoint fin)
    have "length (workers p2) = ?k"
      using b by (simp add: workers_Serve_start fin)
    then show ?thesis using b fin inv2 ep2 by (simp add: k)
  qed
  have inv3: "shutdown_inv ?k p3"
    unfolding p3 using facts nc(2) by (intro shutdown_run [where t = t]) simp_all
  have len3: "length (workers p3) = ?k"
    using facts by (simp add: p3 Serve_run_length)
  have act: "length (filter active (workers p3)) = finals (pending (In (pclient p3)))"
    using inv3 len3 by (simp add: shutdown_inv_def)
  have drained: "list_all (\<lambda>w. w = Exited None) (workers p3) \<and>
      count_list (logs p3) msg_final = length (workers p3) \<and> Wait p3 = Some None"
    if e: "pending (In (pclient p3)) = []"
  proof -
    have z: "length (filter active (workers p3)) = 0" using act e by (simp add: finals_def)
    have all: "list_all (\<lambda>w. w = Exited None) (workers p3)"
      using inv3 z by (intro filter_active_all) (simp_all add: shutdown_inv_def)
    have cnt: "count_list (logs p3) msg_final = length (workers p3)"
      using inv3 z by (simp add: shutdown_inv_def)
    have "Wait p3 = Some None"
      using is_exited_all [OF all] inv3 by (simp add: Wait_def shutdown_inv_def)
    then show ?thesis using all cnt by simp
  qed
  have live3: "live_inv p3" unfolding p3 using live2 by (rule live_run)
  have nt3: "nt (Endpoint (pclient p3)) (Timeout (pclient p3)) = Inr t"
    using facts by (simp add: p3 Serve_run_endpoint)
  have "Wait (Serve_run nt do
      (drain_run (length (workers p3)) (Suc (length (pending (out p3))))
         (length (pending (In (pclient p3))))) p3) = Some None"
    using nt3 live3 inv3 by (rule drain_run_returns) (simp_all add: len3)
  then show ?thesis using facts len3 act drained by simp
qed

text \<open>
  C9. A worker whose transport cannot be built returns that error; a worker at its outer
  \<open>select\<close> that takes the sentinel, or that takes the cancellation, returns nil. In every
  run of a pool the only error a worker returns is the error of building the transport,
  and a result of \<open>Serve\<close> is that error if the transport cannot be built and nil
  otherwise. And \<open>Serve\<close> does return. When the transport cannot be built, it returns that
  error as soon as every worker has tried to build its transport. When the transport can
  be built, then from the state that any run has reached, the cancellation, after which
  each worker goes on to its outer \<open>select\<close> (the reader receiving what is sent) and takes
  the cancellation, makes \<open>Serve\<close> return nil; and from the state that any run without a
  cancellation has reached, on a queue that held at least one sentinel for each worker,
  the workers going on to their outer \<open>select\<close> and taking from the queue in turn make
  \<open>Serve\<close> return nil.
\<close>

theorem Serve_result:
  fixes nt :: "string \<Rightarrow> int \<Rightarrow> go_error + 't"
  shows
  "(\<forall>i q e. nt (Endpoint (pclient q)) (Timeout (pclient q)) = Inl e \<and>
        worker_at q i = Some Starting \<longrightarrow>
        worker_at (pool_step nt do (Init i) q) i = Some (Exited (Some e))) \<and>
   (\<forall>i q t req ch'. at_select q i = Some t \<and> chan_recv (In (pclient q)) = Some (req, ch') \<and>
        ID req = - 1 \<longrightarrow>
        worker_at (pool_step nt do (Receive i) q) i = Some (Exited None)) \<and>
   (\<forall>i q t. at_select q i = Some t \<and> ctx_done q \<longrightarrow>
        worker_at (pool_step nt do (Abort i) q) i = Some (Exited None)) \<and>
   (\<forall>e. Exited (Some e) \<in> set (workers (fst (Serve nt do evs c ch))) \<longrightarrow>
        nt (Endpoint c) (Timeout c) = Inl e) \<and>
   (\<forall>r. snd (Serve nt do evs c ch) = Some r \<longrightarrow>
        r = (case nt (Endpoint c) (Timeout c) of Inl e \<Rightarrow> Some e | Inr t \<Rightarrow> None)) \<and>
   (\<forall>e. nt (Endpoint c) (Timeout c) = Inl e \<and>
        (\<forall>i<nat (max 1 (Concurrency c)). Init i \<in> set evs) \<longrightarrow>
        snd (Serve nt do evs c ch) = Some (Some e)) \<and>
   (\<forall>t. nt (Endpoint c) (Timeout c) = Inr t \<longrightarrow>
        snd (Serve nt do
               (evs @ cancel_run (nat (max 1 (Concurrency c)))
                        (Suc (length (pending (out (fst (Serve nt do evs c ch)))))))
               c ch) = Some None) \<and>
   (\<forall>t. nt (Endpoint c) (Timeout c) = Inr t \<and> Cancel \<notin> set evs \<and>
        nat (max 1 (Concurrency c)) \<le> finals (pending (In c)) \<longrightarrow>
        snd (Serve nt do
               (evs @ drain_run (nat (max 1 (Concurrency c)))
                        (Suc (length (pending (out (fst (Serve nt do evs c ch))))))
                        (length (pending (In (pclient (fst (Serve nt do evs c ch)))))))
               c ch) = Some None)"
proof (intro conjI allI impI)
  fix i and q :: "'t pool" and e
  assume "nt (Endpoint (pclient q)) (Timeout (pclient q)) = Inl e \<and> worker_at q i = Some Starting"
  then show "worker_at (pool_step nt do (Init i) q) i = Some (Exited (Some e))"
    by (simp add: worker_at_go_done worker_at_set)
next
  fix i and q :: "'t pool" and t req ch'
  assume a: "at_select q i = Some t \<and> chan_recv (In (pclient q)) = Some (req, ch') \<and> ID req = - 1"
  then obtain w where "worker_at q i = Some w" using at_select_worker [of q i t] by auto
  then have "worker_at (q\<lparr>pclient := (pclient q)\<lparr>In := ch'\<rparr>, logs := logs q @ [msg_final]\<rparr>) i = Some w"
    by (auto simp: worker_at_def split: if_splits)
  then show "worker_at (pool_step nt do (Receive i) q) i = Some (Exited None)"
    using a by (simp add: worker_at_go_done worker_at_set)
next
  fix i and q :: "'t pool" and t
  assume a: "at_select q i = Some t \<and> ctx_done q"
  then obtain w where "worker_at q i = Some w" using at_select_worker [of q i t] by auto
  then have "worker_at (q\<lparr>logs := logs q @ [msg_aborting]\<rparr>) i = Some w"
    by (auto simp: worker_at_def split: if_splits)
  then show "worker_at (pool_step nt do (Abort i) q) i = Some (Exited None)"
    using a by (simp add: worker_at_go_done worker_at_set)
next
  fix e
  assume "Exited (Some e) \<in> set (workers (fst (Serve nt do evs c ch)))"
  then show "nt (Endpoint c) (Timeout c) = Inl e"
    using worker_exit_value [of e nt "do" evs c ch] by (simp add: Serve_def Let_def)
next
  fix r
  assume "snd (Serve nt do evs c ch) = Some r"
  then show "r = (case nt (Endpoint c) (Timeout c) of Inl e \<Rightarrow> Some e | Inr t \<Rightarrow> None)"
    using Wait_result [of nt "do" evs c ch r] by (simp add: Serve_def Let_def)
next
  fix e
  assume "nt (Endpoint c) (Timeout c) = Inl e \<and>
    (\<forall>i<nat (max 1 (Concurrency c)). Init i \<in> set evs)"
  then show "snd (Serve nt do evs c ch) = Some (Some e)"
    using failed_returns [of nt c e evs "do" ch] by (simp add: Serve_def Let_def)
next
  fix t
  assume tr: "nt (Endpoint c) (Timeout c) = Inr t"
  let ?p = "Serve_run nt do evs (Serve_start c ch)"
  have ntp: "nt (Endpoint (pclient ?p)) (Timeout (pclient ?p)) = Inr t"
    using tr by (simp add: Serve_run_endpoint Serve_start_endpoint)
  have live: "live_inv ?p" by (intro live_run live_start)
  have built: "inv_built ?p" using tr by (rule Serve_run_built)
  have len: "length (workers ?p) = nat (max 1 (Concurrency c))"
    by (simp add: Serve_run_length workers_Serve_start)
  have "Wait (Serve_run nt do (cancel_run (length (workers ?p)) (Suc (length (pending (out ?p))))) ?p)
      = Some None"
    using ntp live built by (rule cancel_run_returns) simp
  then show "snd (Serve nt do
               (evs @ cancel_run (nat (max 1 (Concurrency c)))
                        (Suc (length (pending (out (fst (Serve nt do evs c ch)))))))
               c ch) = Some None"
    unfolding len by (simp add: Serve_def Let_def Serve_run_append)
next
  fix t
  assume a: "nt (Endpoint c) (Timeout c) = Inr t \<and> Cancel \<notin> set evs \<and>
    nat (max 1 (Concurrency c)) \<le> finals (pending (In c))"
  let ?p = "Serve_run nt do evs (Serve_start c ch)"
  let ?M = "finals (pending (In c))"
  have nt0: "nt (Endpoint (pclient (Serve_start c ch))) (Timeout (pclient (Serve_start c ch))) = Inr t"
    using a by (simp add: Serve_start_endpoint)
  have ntp: "nt (Endpoint (pclient ?p)) (Timeout (pclient ?p)) = Inr t"
    using a by (simp add: Serve_run_endpoint Serve_start_endpoint)
  have live: "live_inv ?p" by (intro live_run live_start)
  have sd0: "shutdown_inv ?M (Serve_start c ch)"
    by (simp add: shutdown_inv_def Serve_start_def coerce_def msg_final_other list_all_iff)
  have sd: "shutdown_inv ?M ?p" using nt0 _ sd0 by (rule shutdown_run) (use a in simp)
  have len: "length (workers ?p) = nat (max 1 (Concurrency c))"
    by (simp add: Serve_run_length workers_Serve_start)
  have "Wait (Serve_run nt do (drain_run (length (workers ?p)) (Suc (length (pending (out ?p))))
      (length (pending (In (pclient ?p))))) ?p) = Some None"
    using ntp live sd by (rule drain_run_returns) (use a len in simp_all)
  then show "snd (Serve nt do
               (evs @ drain_run (nat (max 1 (Concurrency c)))
                        (Suc (length (pending (out (fst (Serve nt do evs c ch))))))
                        (length (pending (In (pclient (fst (Serve nt do evs c ch)))))))
               c ch) = Some None"
    unfolding len by (simp add: Serve_def Let_def Serve_run_append)
qed

theorem Serve_result_witness:
  "snd (Serve (\<lambda>ep tmo. Inr (0::nat)) (\<lambda>t req. \<lparr>Err = None, Elapsed = 1\<rparr>)
     [Init 0, Receive 0, Record 0, Cancel, Init 0, Record 0, Forward 0 False, Consume, Abort 0]
     \<lparr>Endpoint = ''a'', Concurrency = 1, Timeout = 0,
      In = \<lparr>cap = 2, pending = [\<lparr>client = Some 0, ID = 1, Line = ''x'', Timestamp = 0\<rparr>,
                               final_request], taken = 0\<rparr>, Stats = zero_stats\<rparr>
     \<lparr>cap = 0, pending = [], taken = 0\<rparr>) = Some None \<and>
   snd (Serve (\<lambda>ep tmo. Inr (0::nat)) (\<lambda>t req. \<lparr>Err = None, Elapsed = 1\<rparr>)
     [Init 0, Receive 0, Record 0, Init 0, Record 0, Forward 0 False, Consume, Receive 0]
     \<lparr>Endpoint = ''a'', Concurrency = 1, Timeout = 0,
      In = \<lparr>cap = 2, pending = [\<lparr>client = Some 0, ID = 1, Line = ''x'', Timestamp = 0\<rparr>,
                               final_request], taken = 0\<rparr>, Stats = zero_stats\<rparr>
     \<lparr>cap = 0, pending = [], taken = 0\<rparr>) = Some None \<and>
   snd (Serve (\<lambda>ep tmo. Inl (GoError ''no transport'') :: go_error + nat)
     (\<lambda>t req. \<lparr>Err = None, Elapsed = 1\<rparr>) [Init 1, Init 0]
     \<lparr>Endpoint = ''a'', Concurrency = 2, Timeout = 0,
      In = \<lparr>cap = 4, pending = [], taken = 0\<rparr>, Stats = zero_stats\<rparr>
     \<lparr>cap = 0, pending = [], taken = 0\<rparr>) = Some (Some (GoError ''no transport''))"
  using Serve_result [of "\<lambda>ep tmo. Inr (0::nat)" "\<lambda>t req. \<lparr>Err = None, Elapsed = 1\<rparr>"
      "[Init 0, Receive 0, Record 0]"
      "\<lparr>Endpoint = ''a'', Concurrency = 1, Timeout = 0,
      In = \<lparr>cap = 2, pending = [\<lparr>client = Some 0, ID = 1, Line = ''x'', Timestamp = 0\<rparr>,
                               final_request], taken = 0\<rparr>, Stats = zero_stats\<rparr>"
      "\<lparr>cap = 0, pending = [], taken = 0\<rparr>"]
  by (simp add: Serve_def Let_def cancel_run_def drain_run_def drain_round_def settle_def
      pool_eval numeral_2_eq_2)

end
